theory Spec2Isabelle
  imports Complex_Main "HOL-Library.Multiset"
begin

section \<open>JavaScript numbers\<close>

text \<open>
  The TypeScript sources compute with JavaScript numbers. The values that occur in the
  modelled functions are quotients of array lengths and heap sizes, their products with
  decimal constants, and the three special values. Finite values are modelled by exact
  rationals; the rounding of IEEE doubles is not represented.
\<close>

datatype jsnum = Num rat | NaN | PosInf | NegInf

text \<open>\<^verbatim>\<open>a / b\<close> for two non-negative whole numbers (array lengths, byte counts).\<close>

definition js_div :: "nat \<Rightarrow> nat \<Rightarrow> jsnum" where
  "js_div a b = (if b = 0 then (if a = 0 then NaN else PosInf) else Num (of_nat a / of_nat b))"

text \<open>\<^verbatim>\<open>x * c\<close> and \<^verbatim>\<open>x - c\<close> for a finite constant \<open>c\<close>.\<close>

fun js_mul :: "jsnum \<Rightarrow> rat \<Rightarrow> jsnum" where
  "js_mul (Num x) c = Num (x * c)"
| "js_mul NaN c = NaN"
| "js_mul PosInf c = (if c > 0 then PosInf else if c < 0 then NegInf else NaN)"
| "js_mul NegInf c = (if c > 0 then NegInf else if c < 0 then PosInf else NaN)"

fun js_sub :: "jsnum \<Rightarrow> rat \<Rightarrow> jsnum" where
  "js_sub (Num x) c = Num (x - c)"
| "js_sub NaN c = NaN"
| "js_sub PosInf c = PosInf"
| "js_sub NegInf c = NegInf"

text \<open>\<^verbatim>\<open>x > c\<close> for a finite constant, and \<^verbatim>\<open>n < x\<close> for a loop counter: both are false on NaN.\<close>

fun js_gt :: "jsnum \<Rightarrow> rat \<Rightarrow> bool" where
  "js_gt (Num x) c = (x > c)"
| "js_gt NaN c = False"
| "js_gt PosInf c = True"
| "js_gt NegInf c = False"

fun js_lt :: "nat \<Rightarrow> jsnum \<Rightarrow> bool" where
  "js_lt n (Num x) = (of_nat n < x)"
| "js_lt n NaN = False"
| "js_lt n PosInf = True"
| "js_lt n NegInf = False"

fun Math_ceil :: "jsnum \<Rightarrow> jsnum" where
  "Math_ceil (Num x) = Num (of_int \<lceil>x\<rceil>)"
| "Math_ceil NaN = NaN"
| "Math_ceil PosInf = PosInf"
| "Math_ceil NegInf = NegInf"

text \<open>\<^verbatim>\<open>Math.round\<close> rounds to the nearest integer, a half towards plus infinity.\<close>

fun Math_round :: "jsnum \<Rightarrow> jsnum" where
  "Math_round (Num x) = Num (of_int \<lfloor>x + 1 / 2\<rfloor>)"
| "Math_round NaN = NaN"
| "Math_round PosInf = PosInf"
| "Math_round NegInf = NegInf"


text \<open>\<^verbatim>\<open>Number.isFinite\<close>.\<close>

fun isFinite :: "jsnum \<Rightarrow> bool" where
  "isFinite (Num x) = True"
| "isFinite NaN = False"
| "isFinite PosInf = False"
| "isFinite NegInf = False"


section \<open>EmbeddingQueue: gated batch processing\<close>

record EmbeddingQueueConfig =
  batchSize :: nat
  concurrency :: nat
  batchDelayMs :: nat
  checkpointAfterBatch :: bool
  adaptiveBatchSize :: bool

record BatchProgress =
  batch :: nat
  totalBatches :: jsnum
  processed :: nat
  total :: nat
  percent :: jsnum

subsection \<open>getAdaptiveBatchSize\<close>

text \<open>
  The result of \<^verbatim>\<open>process.memoryUsage()\<close>; the function receives \<open>None\<close> where the
  runtime has no \<^verbatim>\<open>process.memoryUsage\<close>.
\<close>

record MemoryUsage =
  heapUsed :: nat
  heapTotal :: nat

definition getAdaptiveBatchSize :: "MemoryUsage option \<Rightarrow> nat \<Rightarrow> nat" where
  "getAdaptiveBatchSize memoryUsage baseBatchSize =
     (case memoryUsage of
        Some mem \<Rightarrow>
          (let heapUsedRatio = js_div (heapUsed mem) (heapTotal mem) in
           if js_gt heapUsedRatio 0.85 then
             max 10 (nat \<lfloor>of_nat baseBatchSize * (0.25 :: rat)\<rfloor>)
           else if js_gt heapUsedRatio 0.7 then
             max 10 (nat \<lfloor>of_nat baseBatchSize * (0.5 :: rat)\<rfloor>)
           else if js_gt heapUsedRatio 0.5 then
             max 10 (nat \<lfloor>of_nat baseBatchSize * (0.75 :: rat)\<rfloor>)
           else baseBatchSize)
      | None \<Rightarrow> baseBatchSize)"


subsection \<open>processInBatches\<close>

text \<open>
  A run of \<^verbatim>\<open>processInBatches\<close> is observed through a trace: one event for every item
  whose processing completed (with the index of its batch), for every call of
  \<^verbatim>\<open>onProgress\<close> (with its argument), for every invocation of the \<^verbatim>\<open>afterBatch\<close> hook and
  for every \<^verbatim>\<open>Effect.sleep\<close> between batches. The trace is instrumentation: the source
  has no such value, the events stand for the calls it makes, in the order it makes them.
\<close>

datatype 'a event =
    ItemDone nat 'a
  | Progress BatchProgress
  | AfterBatch nat
  | Sleep nat

text \<open>\<^verbatim>\<open>items.slice(start, end)\<close> for \<open>0 \<le> start\<close> and \<open>0 \<le> end\<close>.\<close>

definition slice :: "'a list \<Rightarrow> nat \<Rightarrow> nat \<Rightarrow> 'a list" where
  "slice xs start end' = take (end' - start) (drop start xs)"

text \<open>The three lines that cut batch \<open>batchIdx\<close> out of the items.\<close>

definition batch_slice :: "'a list \<Rightarrow> nat \<Rightarrow> nat \<Rightarrow> 'a list" where
  "batch_slice items bsize batchIdx =
     (let start = batchIdx * bsize;
          end' = min (start + bsize) (length items)
      in slice items start end')"

text \<open>
  \<^verbatim>\<open>Stream.fromIterable(batch).pipe(Stream.mapEffect(process, { concurrency }),
  Stream.runCollect, Effect.map(Chunk.toArray))\<close> is an operator of the Effect library, not
  code of this repository. It is modelled by what it does to the batch: the effects of
  the elements complete in some order, which the runtime chooses (the list \<open>order\<close> of the
  positions of the batch, in order of completion); each result is stored in the slot of
  its position; the first effect that fails makes the whole stream fail with its error;
  when all have completed, the results are read off the slots, in the order of the
  positions. The function also returns the positions that completed successfully, for the
  trace. An order of completion of a batch of \<open>n\<close> elements is a rearrangement of the
  positions \<open>0, \<dots>, n - 1\<close>.
\<close>

definition is_completion_order :: "nat \<Rightarrow> nat list \<Rightarrow> bool" where
  "is_completion_order n order = (sort order = [0..<n])"

fun mapEffect_run ::
  "('a \<Rightarrow> 'e + 'r) \<Rightarrow> 'a list \<Rightarrow> nat list \<Rightarrow> 'r option list \<Rightarrow> nat list \<Rightarrow>
     nat list \<times> ('e + 'r option list)" where
  "mapEffect_run process xs [] slots done = (done, Inr slots)"
| "mapEffect_run process xs (i # order) slots done =
     (case process (xs ! i) of
        Inl e \<Rightarrow> (done, Inl e)
      | Inr r \<Rightarrow> mapEffect_run process xs order (slots[i := Some r]) (done @ [i]))"

definition mapEffect ::
  "('a \<Rightarrow> 'e + 'r) \<Rightarrow> nat \<Rightarrow> nat list \<Rightarrow> 'a list \<Rightarrow> nat list \<times> ('e + 'r list)" where
  "mapEffect process n order xs =
     (case mapEffect_run process xs order (replicate (length xs) None) [] of
        (done, Inl e) \<Rightarrow> (done, Inl e)
      | (done, Inr slots) \<Rightarrow> (done, Inr (List.map_filter (\<lambda>s. s) slots)))"

text \<open>
  The \<^verbatim>\<open>afterBatch\<close> hook is an effect of the caller: whether an invocation fails may
  depend on everything that happened before it, so the hook is a function of the trace so
  far that returns the error it fails with, or \<open>None\<close> when it succeeds.
\<close>

type_synonym ('a, 'e) hook = "'a event list \<Rightarrow> 'e option"

text \<open>The argument of \<^verbatim>\<open>onProgress\<close>.\<close>

definition progress_report :: "nat \<Rightarrow> jsnum \<Rightarrow> nat \<Rightarrow> nat \<Rightarrow> BatchProgress" where
  "progress_report batchIdx totalBatches' nresults nitems =
     \<lparr>batch = batchIdx + 1,
      totalBatches = totalBatches',
      processed = nresults,
      total = nitems,
      percent = Math_round (js_mul (js_div nresults nitems) 100)\<rparr>"

text \<open>
  The body of the \<^verbatim>\<open>for\<close> loop: it returns \<open>Inl\<close> with the trace and the error when the
  run aborts in this iteration, and \<open>Inr\<close> with the results and the trace so far when the
  loop goes on. \<open>onProgress\<close> tells whether the caller passed a progress callback, \<open>sched\<close>
  gives the order of completion in each batch.
\<close>

definition batch_body ::
  "'a list \<Rightarrow> ('a \<Rightarrow> 'e + 'r) \<Rightarrow> EmbeddingQueueConfig \<Rightarrow> ('a, 'e) hook option \<Rightarrow> bool \<Rightarrow>
   (nat \<Rightarrow> nat list) \<Rightarrow> jsnum \<Rightarrow> nat \<Rightarrow> 'r list \<Rightarrow> 'a event list \<Rightarrow>
   ('a event list \<times> 'e) + ('r list \<times> 'a event list)" where
  "batch_body items process config afterBatch onProgress sched totalBatches' batchIdx results trace =
     (let batch = batch_slice items (batchSize config) batchIdx
      in case mapEffect process (concurrency config) (sched batchIdx) batch of
           (done, Inl e) \<Rightarrow> Inl (trace @ map (\<lambda>i. ItemDone batchIdx (batch ! i)) done, e)
         | (done, Inr batchResults) \<Rightarrow>
             (let trace1 = trace @ map (\<lambda>i. ItemDone batchIdx (batch ! i)) done;
                  results1 = results @ batchResults;
                  trace2 = (if onProgress
                     then trace1 @ [Progress (progress_report batchIdx totalBatches'
                                       (length results1) (length items))]
                     else trace1);
                  pause = (if batchDelayMs config > 0 \<and> js_lt batchIdx (js_sub totalBatches' 1)
                     then [Sleep (batchDelayMs config)] else [])
              in case (if checkpointAfterBatch config then afterBatch else None) of
                   Some hook \<Rightarrow>
                     (case hook trace2 of
                        Some e \<Rightarrow> Inl (trace2 @ [AfterBatch batchIdx], e)
                      | None \<Rightarrow> Inr (results1, trace2 @ [AfterBatch batchIdx] @ pause))
                 | None \<Rightarrow> Inr (results1, trace2 @ pause)))"

text \<open>
  The loop \<^verbatim>\<open>for (let batchIdx = 0; batchIdx < totalBatches; batchIdx++)\<close>. With a batch
  size of 0 and at least one item, \<^verbatim>\<open>totalBatches\<close> is \<^verbatim>\<open>Infinity\<close> and the loop never
  ends: the value of the function is then \<open>None\<close>.
\<close>

partial_function (option) batch_loop ::
  "(nat \<Rightarrow> 'r list \<Rightarrow> 'a event list \<Rightarrow> ('a event list \<times> 'e) + ('r list \<times> 'a event list)) \<Rightarrow>
   jsnum \<Rightarrow> nat \<Rightarrow> 'r list \<Rightarrow> 'a event list \<Rightarrow> ('a event list \<times> ('e + 'r list)) option" where
  "batch_loop body totalBatches' batchIdx results trace =
     (if js_lt batchIdx totalBatches' then
        (case body batchIdx results trace of
           Inl (trace1, e) \<Rightarrow> Some (trace1, Inl e)
         | Inr (results1, trace1) \<Rightarrow> batch_loop body totalBatches' (batchIdx + 1) results1 trace1)
      else Some (trace, Inr results))"

declare batch_loop.simps [code]

definition processInBatches ::
  "'a list \<Rightarrow> ('a \<Rightarrow> 'e + 'r) \<Rightarrow> EmbeddingQueueConfig \<Rightarrow> ('a, 'e) hook option \<Rightarrow> bool \<Rightarrow>
   (nat \<Rightarrow> nat list) \<Rightarrow> ('a event list \<times> ('e + 'r list)) option" where
  "processInBatches items process config afterBatch onProgress sched =
     (let totalBatches' = Math_ceil (js_div (length items) (batchSize config))
      in batch_loop (batch_body items process config afterBatch onProgress sched totalBatches')
           totalBatches' 0 [] [])"

subsection \<open>Reading a trace\<close>

text \<open>The items of batch \<open>b\<close> whose processing completed, in order of completion.\<close>

fun items_of_batch :: "nat \<Rightarrow> 'a event list \<Rightarrow> 'a list" where
  "items_of_batch b [] = []"
| "items_of_batch b (ItemDone b' x # es) =
     (if b' = b then x # items_of_batch b es else items_of_batch b es)"
| "items_of_batch b (e # es) = items_of_batch b es"

text \<open>The items whose processing completed, over all batches.\<close>

definition item_values :: "'a event list \<Rightarrow> 'a list" where
  "item_values trace = concat (map (\<lambda>e. case e of ItemDone b x \<Rightarrow> [x] | _ \<Rightarrow> []) trace)"

text \<open>The arguments of the calls of \<^verbatim>\<open>onProgress\<close>, in order.\<close>

fun progress_events :: "'a event list \<Rightarrow> BatchProgress list" where
  "progress_events [] = []"
| "progress_events (Progress p # es) = p # progress_events es"
| "progress_events (e # es) = progress_events es"

fun is_item :: "'a event \<Rightarrow> bool" where
  "is_item (ItemDone b x) = True"
| "is_item e = False"

fun is_hook :: "'a event \<Rightarrow> bool" where
  "is_hook (AfterBatch b) = True"
| "is_hook e = False"

text \<open>The number \<open>\<lceil>n / b\<rceil>\<close>.\<close>

definition ceil_div :: "nat \<Rightarrow> nat \<Rightarrow> nat" where
  "ceil_div n b = nat \<lceil>(of_nat n / of_nat b :: rat)\<rceil>"

text \<open>
  What one iteration of the loop adds to the trace when it completes: the items of the
  batch in their order of completion, the progress report, the hook and the pause. The
  lemma \<open>processInBatches_shape\<close> below proves that the trace of a run is made of these
  segments.
\<close>

definition hook_enabled :: "EmbeddingQueueConfig \<Rightarrow> ('a, 'e) hook option \<Rightarrow> bool" where
  "hook_enabled config afterBatch = (checkpointAfterBatch config \<and> afterBatch \<noteq> None)"

definition item_events :: "'a list \<Rightarrow> nat \<Rightarrow> nat \<Rightarrow> nat list \<Rightarrow> 'a event list" where
  "item_events items bsize b order =
     map (\<lambda>i. ItemDone b (batch_slice items bsize b ! i)) order"

definition progress_of :: "'a list \<Rightarrow> nat \<Rightarrow> nat \<Rightarrow> BatchProgress" where
  "progress_of items bsize b =
     progress_report b (Num (of_nat (ceil_div (length items) bsize)))
       (min ((b + 1) * bsize) (length items)) (length items)"

definition batch_segment ::
  "'a list \<Rightarrow> EmbeddingQueueConfig \<Rightarrow> bool \<Rightarrow> bool \<Rightarrow> (nat \<Rightarrow> nat list) \<Rightarrow> nat \<Rightarrow> 'a event list" where
  "batch_segment items config hooked onProgress sched b =
     item_events items (batchSize config) b (sched b) @
     (if onProgress then [Progress (progress_of items (batchSize config) b)] else []) @
     (if hooked then [AfterBatch b] else []) @
     (if batchDelayMs config > 0 \<and> b + 1 < ceil_div (length items) (batchSize config)
      then [Sleep (batchDelayMs config)] else [])"

subsection \<open>An example run\<close>

text \<open>
  Five items in batches of two, each item doubled, a hook that succeeds, a progress
  callback, and in every batch the items completing in reverse order.
\<close>

definition cfg2 :: EmbeddingQueueConfig where
  "cfg2 = \<lparr>batchSize = 2, concurrency = 3, batchDelayMs = 50,
            checkpointAfterBatch = True, adaptiveBatchSize = False\<rparr>"

definition double :: "nat \<Rightarrow> string + nat" where
  "double n = Inr (2 * n)"

definition reverse_order :: "nat list \<Rightarrow> nat \<Rightarrow> nat \<Rightarrow> nat list" where
  "reverse_order items bsize b = rev [0..<length (batch_slice items bsize b)]"




section \<open>Ollama: the embedding client\<close>

datatype OllamaError = OllamaError (reason: string)

definition EXPECTED_EMBEDDING_DIMENSION :: nat where
  "EXPECTED_EMBEDDING_DIMENSION = 1024"

text \<open>A number in a template string: its decimal digits.\<close>

definition digit_char :: "nat \<Rightarrow> char" where
  "digit_char d = char_of (48 + d)"

function show_nat :: "nat \<Rightarrow> string" where
  "show_nat n = (if n < 10 then [digit_char n] else show_nat (n div 10) @ [digit_char (n mod 10)])"
  by pat_completeness auto
termination
  by (relation "measure (\<lambda>n. n)") auto

declare show_nat.simps [simp del]

subsection \<open>validateEmbedding\<close>

text \<open>
  The elements of the vector are JavaScript numbers; an element of the parsed JSON that
  is not a number fails \<^verbatim>\<open>Number.isFinite\<close> like NaN does.
\<close>

definition validateEmbedding :: "jsnum list \<Rightarrow> OllamaError + jsnum list" where
  "validateEmbedding embedding =
     (if length embedding = 0 then
        Inl (OllamaError (''Invalid embedding: dimension 0 (expected '' @
               show_nat EXPECTED_EMBEDDING_DIMENSION @ '')''))
      else if length embedding \<noteq> EXPECTED_EMBEDDING_DIMENSION then
        Inl (OllamaError (''Invalid embedding: dimension '' @ show_nat (length embedding) @
               '' (expected '' @ show_nat EXPECTED_EMBEDDING_DIMENSION @ '')''))
      else if list_ex (\<lambda>v. \<not> isFinite v) embedding then
        Inl (OllamaError ''Invalid embedding: contains non-finite values (NaN or Infinity)'')
      else Inr embedding)"

subsection \<open>embedSingle\<close>

text \<open>
  A promise settles with a value or is rejected; the reason of a rejection is kept as the
  string that \<^verbatim>\<open>${e}\<close> renders. The response of \<^verbatim>\<open>fetch\<close> is its \<^verbatim>\<open>ok\<close> flag and what
  \<^verbatim>\<open>response.text()\<close> and \<^verbatim>\<open>response.json()\<close> settle with; here the JSON body is read
  as an \<^verbatim>\<open>OllamaEmbeddingResponse\<close>, of which the model keeps the \<^verbatim>\<open>embedding\<close> field.
\<close>

datatype 'a promise = Resolved 'a | Rejected string

record 'a Response =
  ok :: bool
  body_text :: "string promise"
  body_json :: "'a promise"

text \<open>One execution of the body of \<^verbatim>\<open>embedSingle\<close>, on the outcome of its \<^verbatim>\<open>fetch\<close>.\<close>

definition embedAttempt :: "jsnum list Response promise \<Rightarrow> OllamaError + jsnum list" where
  "embedAttempt fetched =
     (case fetched of
        Rejected e \<Rightarrow> Inl (OllamaError (''Connection failed: '' @ e))
      | Resolved response \<Rightarrow>
          if \<not> ok response then
            (case body_text response of
               Rejected e \<Rightarrow> Inl (OllamaError ''Failed to read error response'')
             | Resolved error \<Rightarrow> Inl (OllamaError error))
          else
            (case body_json response of
               Rejected e \<Rightarrow> Inl (OllamaError ''Invalid JSON response'')
             | Resolved data \<Rightarrow> validateEmbedding data))"

text \<open>
  \<^verbatim>\<open>Effect.retry(Schedule.exponential(Duration.millis(100)).pipe(Schedule.compose(
  Schedule.recurs(3))))\<close> belongs to the Effect library. \<^verbatim>\<open>Schedule.exponential(base)\<close>
  waits \<open>base * 2 ^ n\<close> before recurrence \<open>n\<close> (counted from 0), \<^verbatim>\<open>Schedule.recurs(k)\<close>
  allows \<open>k\<close> recurrences, and \<^verbatim>\<open>Effect.retry\<close> runs the effect again after every failure, of
  whatever kind, for as long as the schedule allows, and fails with the last error.
  \<open>retry\<close> takes the effect as a function of the number of the attempt and returns the
  outcome with the number of attempts made and the delays slept, in milliseconds.
\<close>

definition exponential :: "nat \<Rightarrow> nat \<Rightarrow> nat" where
  "exponential base n = base * 2 ^ n"

record 'a EmbedRun =
  outcome :: "OllamaError + 'a"
  attempts :: nat
  delays :: "nat list"

fun retry :: "(nat \<Rightarrow> OllamaError + 'a) \<Rightarrow> nat \<Rightarrow> nat \<Rightarrow> nat \<Rightarrow> nat list \<Rightarrow> 'a EmbedRun" where
  "retry effect base 0 n slept = \<lparr>outcome = effect n, attempts = n + 1, delays = slept\<rparr>"
| "retry effect base (Suc recurs) n slept =
     (case effect n of
        Inr a \<Rightarrow> \<lparr>outcome = Inr a, attempts = n + 1, delays = slept\<rparr>
      | Inl e \<Rightarrow> retry effect base recurs (n + 1) (slept @ [exponential base n]))"

text \<open>
  The embedding service answers each request as it likes: \<open>fetch n prompt\<close> is the outcome of
  the request of attempt \<open>n\<close> for the text \<open>prompt\<close>.
\<close>

definition embedSingle :: "(nat \<Rightarrow> string \<Rightarrow> jsnum list Response promise) \<Rightarrow> string \<Rightarrow> jsnum list EmbedRun" where
  "embedSingle fetch prompt = retry (\<lambda>n. embedAttempt (fetch n prompt)) 100 3 0 []"

text \<open>
  A service that always answers with an empty vector, one that does so once, and one that
  first answers with a vector of two elements.
\<close>

definition answers :: "jsnum list \<Rightarrow> jsnum list Response promise" where
  "answers v = Resolved \<lparr>ok = True, body_text = Resolved [], body_json = Resolved v\<rparr>"

definition empty_then_good :: "nat \<Rightarrow> string \<Rightarrow> jsnum list Response promise" where
  "empty_then_good n prompt = (if n = 0 then answers [] else answers (replicate 1024 (Num 0)))"

definition short_then_good :: "nat \<Rightarrow> string \<Rightarrow> jsnum list Response promise" where
  "short_then_good n prompt =
     (if n = 0 then answers [Num 1, Num 2] else answers (replicate 1024 (Num 0)))"

section \<open>AutoTagger: proposed concepts and their deduplication\<close>

subsection \<open>Strings\<close>

text \<open>
  Strings are lists of 8-bit characters, so the model covers the ASCII strings; the case
  mappings and the white space of JavaScript outside ASCII are not represented.
\<close>

definition is_space :: "char \<Rightarrow> bool" where
  "is_space c = (of_char c \<in> {9, 10, 11, 12, 13, 32 :: nat})"

definition trim :: "string \<Rightarrow> string" where
  "trim s = rev (dropWhile is_space (rev (dropWhile is_space s)))"

definition toUpperCase_char :: "char \<Rightarrow> char" where
  "toUpperCase_char c =
     (let n = of_char c :: nat in if 97 \<le> n \<and> n \<le> 122 then char_of (n - 32) else c)"

definition toUpperCase :: "string \<Rightarrow> string" where
  "toUpperCase s = map toUpperCase_char s"

definition toLowerCase_char :: "char \<Rightarrow> char" where
  "toLowerCase_char c =
     (let n = of_char c :: nat in if 65 \<le> n \<and> n \<le> 90 then char_of (n + 32) else c)"

definition toLowerCase :: "string \<Rightarrow> string" where
  "toLowerCase s = map toLowerCase_char s"

fun startsWith :: "string \<Rightarrow> string \<Rightarrow> bool" where
  "startsWith s [] = True"
| "startsWith [] (p # ps) = False"
| "startsWith (c # cs) (p # ps) = (c = p \<and> startsWith cs ps)"

fun includes' :: "string \<Rightarrow> string \<Rightarrow> bool" where
  "includes' [] sub = (sub = [])"
| "includes' (c # cs) sub = (startsWith (c # cs) sub \<or> includes' cs sub)"

text \<open>\<^verbatim>\<open>s.split(sep)\<close> for a separator of one character.\<close>

fun split :: "char \<Rightarrow> string \<Rightarrow> string list" where
  "split sep [] = [[]]"
| "split sep (c # cs) =
     (if c = sep then [] # split sep cs
      else (case split sep cs of p # ps \<Rightarrow> (c # p) # ps | [] \<Rightarrow> [[c]]))"

text \<open>\<^verbatim>\<open>s.split(/\s+/)\<close>: the pieces between the maximal runs of white space.\<close>

function split_spaces :: "string \<Rightarrow> string list" where
  "split_spaces [] = [[]]"
| "split_spaces (c # cs) =
     (if is_space c then [] # split_spaces (dropWhile is_space cs)
      else (case split_spaces cs of p # ps \<Rightarrow> (c # p) # ps | [] \<Rightarrow> [[c]]))"
  by pat_completeness auto
termination
  by (relation "measure length") (auto simp: less_Suc_eq_le length_dropWhile_le)

subsection \<open>Concepts\<close>

text \<open>
  \<^verbatim>\<open>ProposedConcept\<close>, and the rows that \<^verbatim>\<open>findSimilarConcepts\<close> returns, of which the
  source reads the same fields. The fields \<^verbatim>\<open>id\<close> and \<^verbatim>\<open>definition\<close> carry a prime.
\<close>

record Concept =
  id' :: string
  prefLabel :: string
  altLabels :: "string list option"
  definition' :: "string option"

definition validParents :: "string list" where
  "validParents =
     [''programming'', ''education'', ''design'', ''business'',
      ''meta'', ''psychology'', ''research'', ''writing'']"

definition isValidConceptId :: "string \<Rightarrow> bool" where
  "isValidConceptId i =
     (if \<not> includes' i ''/'' \<or> length (split CHR ''/'' i) \<noteq> 2 then False
      else
        (let parent = split CHR ''/'' i ! 0;
             child = split CHR ''/'' i ! 1
         in if parent \<notin> set validParents then False
            else if includes' child '' '' then False
            else if length child > 30 then False
            else if child = ''concept'' \<or> child = ''new'' then False
            else if i \<noteq> toLowerCase i then False
            else (let wordCount = length (split CHR ''-'' child)
                  in if wordCount > 4 then False else True)))"

definition validateProposedConcepts :: "Concept list option \<Rightarrow> Concept list" where
  "validateProposedConcepts concepts =
     (case concepts of
        None \<Rightarrow> []
      | Some cs \<Rightarrow>
          filter (\<lambda>c.
            if id' c = [] \<or> prefLabel c = [] then False
            else if \<not> isValidConceptId (id' c) then False
            else (let labelWords = length (split_spaces (trim (prefLabel c)))
                  in if labelWords > 5 then False else True)) cs)"

subsection \<open>The services\<close>

text \<open>
  The embedding client, the taxonomy store and the language model of the judge are outside
  this code. Each of their operations takes the state of the world and returns its result
  with the new state, so that an operation may answer differently each time it is called
  and the store may change with what is added to it. The configuration of the judge
  (\<^verbatim>\<open>loadConfig()\<close>, whose code is not in the repository) and the environment variable
  \<^verbatim>\<open>AI_GATEWAY_API_KEY\<close> are part of the record. The prompt of the judge is represented by
  the four texts that the template interpolates.
\<close>

datatype TaxonomyError = TaxonomyError (taxonomy_reason: string)

record JudgePrompt =
  proposedName :: string
  proposedDefinition :: string
  existingName :: string
  existingDefinition :: string

record 'w Services =
  embed :: "string \<Rightarrow> 'w \<Rightarrow> (OllamaError + jsnum list) \<times> 'w"
  findSimilarConcepts :: "jsnum list \<Rightarrow> rat \<Rightarrow> 'w \<Rightarrow> (TaxonomyError + Concept list) \<times> 'w"
  addConcept :: "Concept \<Rightarrow> 'w \<Rightarrow> (TaxonomyError + unit) \<times> 'w"
  storeConceptEmbedding :: "string \<Rightarrow> jsnum list \<Rightarrow> 'w \<Rightarrow> (TaxonomyError + unit) \<times> 'w"
  judge_provider :: string
  AI_GATEWAY_API_KEY :: "string option"
  generateText :: "JudgePrompt \<Rightarrow> 'w \<Rightarrow> string promise \<times> 'w"
  fetch_generate :: "JudgePrompt \<Rightarrow> 'w \<Rightarrow> string option Response promise \<times> 'w"

subsection \<open>llmJudgeDuplicate\<close>

record JudgeResult =
  isDuplicate :: bool
  available :: bool

definition judge_prompt :: "Concept \<Rightarrow> Concept \<Rightarrow> JudgePrompt" where
  "judge_prompt proposed existing =
     \<lparr>proposedName = prefLabel proposed,
      proposedDefinition =
        (case definition' proposed of
           Some d \<Rightarrow> if d = [] then ''(no definition)'' else d
         | None \<Rightarrow> ''(no definition)''),
      existingName = prefLabel existing,
      existingDefinition =
        (case definition' existing of
           Some d \<Rightarrow> if d = [] then ''(no definition)'' else d
         | None \<Rightarrow> ''(no definition)'')\<rparr>"

text \<open>
  Every \<^verbatim>\<open>await\<close> of the function is inside a \<^verbatim>\<open>try\<close> whose \<^verbatim>\<open>catch\<close> returns the
  unavailable result, so with the configuration loaded the promise of the function always
  resolves, and the \<^verbatim>\<open>Effect.tryPromise\<close> around the call in \<^verbatim>\<open>autoAcceptProposals\<close> has no
  rejection to handle: the function is modelled as returning its result.
\<close>

definition llmJudgeDuplicate ::
  "'w Services \<Rightarrow> Concept \<Rightarrow> Concept \<Rightarrow> 'w \<Rightarrow> JudgeResult \<times> 'w" where
  "llmJudgeDuplicate S proposed existing w =
     (let prompt = judge_prompt proposed existing
      in if judge_provider S = ''gateway'' then
           (if AI_GATEWAY_API_KEY S = None \<or> AI_GATEWAY_API_KEY S = Some [] then
              (\<lparr>isDuplicate = False, available = False\<rparr>, w)
            else
              (case generateText S prompt w of
                 (Resolved result, w1) \<Rightarrow>
                   (let answer = toUpperCase (trim result)
                    in (\<lparr>isDuplicate = includes' answer ''DUPLICATE'', available = True\<rparr>, w1))
               | (Rejected e, w1) \<Rightarrow> (\<lparr>isDuplicate = False, available = False\<rparr>, w1)))
         else
           (case fetch_generate S prompt w of
              (Resolved response, w1) \<Rightarrow>
                if \<not> ok response then (\<lparr>isDuplicate = False, available = False\<rparr>, w1)
                else
                  (case body_json response of
                     Resolved data \<Rightarrow>
                       (let answer = toUpperCase (trim (case data of Some r \<Rightarrow> r | None \<Rightarrow> []))
                        in (\<lparr>isDuplicate = includes' answer ''DUPLICATE'', available = True\<rparr>, w1))
                   | Rejected e \<Rightarrow> (\<lparr>isDuplicate = False, available = False\<rparr>, w1))
            | (Rejected e, w1) \<Rightarrow> (\<lparr>isDuplicate = False, available = False\<rparr>, w1)))"

text \<open>
  The answer of the judge, when there is one: the text that \<^verbatim>\<open>generateText\<close> returned, or
  the \<^verbatim>\<open>response\<close> field of the body that Ollama returned (the empty string when the field
  is missing). There is none when the gateway key is not set, when the call fails, when the
  response is not \<^verbatim>\<open>ok\<close> or when its body cannot be read.
\<close>

definition judge_reply :: "'w Services \<Rightarrow> JudgePrompt \<Rightarrow> 'w \<Rightarrow> string option" where
  "judge_reply S prompt w =
     (if judge_provider S = ''gateway'' then
        (if AI_GATEWAY_API_KEY S = None \<or> AI_GATEWAY_API_KEY S = Some [] then None
         else (case fst (generateText S prompt w) of Resolved result \<Rightarrow> Some result | Rejected e \<Rightarrow> None))
      else
        (case fst (fetch_generate S prompt w) of
           Resolved response \<Rightarrow>
             if \<not> ok response then None
             else (case body_json response of
                     Resolved data \<Rightarrow> Some (case data of Some r \<Rightarrow> r | None \<Rightarrow> [])
                   | Rejected e \<Rightarrow> None)
         | Rejected e \<Rightarrow> None))"

subsection \<open>autoAcceptProposals\<close>

text \<open>
  The calls that \<^verbatim>\<open>autoAcceptProposals\<close> makes for a proposal, and the two places where it
  counts one (\<^verbatim>\<open>rejected++\<close>, \<^verbatim>\<open>accepted++\<close>), are recorded in a log; like the trace of
  \<^verbatim>\<open>processInBatches\<close>, the log is instrumentation.
\<close>

datatype call =
    Embedded Concept
  | Retrieved Concept
  | Judged Concept Concept
  | CountedRejected Concept
  | Added Concept
  | Stored Concept
  | CountedAccepted Concept

datatype ServiceError = OllamaFailure OllamaError | TaxonomyFailure TaxonomyError

datatype EnrichmentError = EnrichmentError (message: string) (cause: ServiceError)

record Counts =
  accepted :: nat
  rejected :: nat

text \<open>The state of the loop: the two counters, the log and the world.\<close>

type_synonym 'w accept_state = "nat \<times> nat \<times> call list \<times> 'w"

text \<open>The end of the loop body: the proposal is novel and is persisted.\<close>

definition accept_novel ::
  "'w Services \<Rightarrow> Concept \<Rightarrow> jsnum list \<Rightarrow> 'w accept_state \<Rightarrow>
     (ServiceError \<times> call list \<times> 'w) + 'w accept_state" where
  "accept_novel S proposal embedding st =
     (case st of (accepted', rejected', calls, w) \<Rightarrow>
        (case addConcept S
                \<lparr>id' = id' proposal, prefLabel = prefLabel proposal,
                 altLabels = altLabels proposal, definition' = definition' proposal\<rparr> w of
           (Inl e, w1) \<Rightarrow> Inl (TaxonomyFailure e, calls @ [Added proposal], w1)
         | (Inr u, w1) \<Rightarrow>
             (case storeConceptEmbedding S (id' proposal) embedding w1 of
                (Inl e, w2) \<Rightarrow> Inl (TaxonomyFailure e, calls @ [Added proposal, Stored proposal], w2)
              | (Inr u2, w2) \<Rightarrow>
                  Inr (accepted' + 1, rejected',
                       calls @ [Added proposal, Stored proposal, CountedAccepted proposal], w2))))"

text \<open>The body of the loop \<^verbatim>\<open>for (const proposal of proposals)\<close>.\<close>

definition proposalText :: "Concept \<Rightarrow> string" where
  "proposalText proposal =
     (case definition' proposal of
        Some d \<Rightarrow> if d = [] then prefLabel proposal else prefLabel proposal @ '': '' @ d
      | None \<Rightarrow> prefLabel proposal)"

definition accept_one ::
  "'w Services \<Rightarrow> Concept \<Rightarrow> 'w accept_state \<Rightarrow>
     (ServiceError \<times> call list \<times> 'w) + 'w accept_state" where
  "accept_one S proposal st =
     (case st of (accepted', rejected', calls, w) \<Rightarrow>
        (case embed S (proposalText proposal) w of
              (Inl e, w1) \<Rightarrow> Inl (OllamaFailure e, calls @ [Embedded proposal], w1)
            | (Inr embedding, w1) \<Rightarrow>
                (case findSimilarConcepts S embedding 0.75 w1 of
                   (Inl e, w2) \<Rightarrow>
                     Inl (TaxonomyFailure e, calls @ [Embedded proposal, Retrieved proposal], w2)
                 | (Inr similar, w2) \<Rightarrow>
                     if length similar > 0 then
                       (case llmJudgeDuplicate S proposal (similar ! 0) w2 of
                          (judgeResult, w3) \<Rightarrow>
                            if isDuplicate judgeResult then
                              Inr (accepted', rejected' + 1,
                                   calls @ [Embedded proposal, Retrieved proposal,
                                          Judged proposal (similar ! 0), CountedRejected proposal],
                                   w3)
                            else
                              accept_novel S proposal embedding
                                (accepted', rejected',
                                 calls @ [Embedded proposal, Retrieved proposal,
                                        Judged proposal (similar ! 0)],
                                 w3))
                     else
                       accept_novel S proposal embedding
                         (accepted', rejected',
                          calls @ [Embedded proposal, Retrieved proposal], w2))))"

fun accept_loop ::
  "'w Services \<Rightarrow> Concept list \<Rightarrow> 'w accept_state \<Rightarrow>
     (ServiceError \<times> call list \<times> 'w) + 'w accept_state" where
  "accept_loop S [] st = Inr st"
| "accept_loop S (proposal # proposals) st =
     (case accept_one S proposal st of
        Inl failure \<Rightarrow> Inl failure
      | Inr st1 \<Rightarrow> accept_loop S proposals st1)"

text \<open>
  The function returns its result (the counts, or the \<open>EnrichmentError\<close> that
  \<^verbatim>\<open>Effect.mapError\<close> makes of the failure) with the log and the world it leaves.
\<close>

definition error_reason :: "ServiceError \<Rightarrow> string" where
  "error_reason e =
     (case e of OllamaFailure (OllamaError r) \<Rightarrow> r | TaxonomyFailure (TaxonomyError r) \<Rightarrow> r)"

definition autoAcceptProposals ::
  "'w Services \<Rightarrow> Concept list \<Rightarrow> 'w \<Rightarrow> (EnrichmentError + Counts) \<times> call list \<times> 'w" where
  "autoAcceptProposals S proposals w =
     (if length proposals = 0 then (Inr \<lparr>accepted = 0, rejected = 0\<rparr>, [], w)
      else
        (case accept_loop S proposals (0, 0, [], w) of
           Inl (e, calls, w1) \<Rightarrow>
             (Inl (EnrichmentError (''Auto-accept failed: '' @ error_reason e) e), calls, w1)
         | Inr (accepted', rejected', calls, w1) \<Rightarrow>
             (Inr \<lparr>accepted = accepted', rejected = rejected'\<rparr>, calls, w1)))"

subsection \<open>Where enrich calls autoAcceptProposals\<close>

text \<open>
  Step 3 of \<^verbatim>\<open>enrich\<close>. The result of step 2 is that of \<^verbatim>\<open>enrichWithLLM\<close>, which on both of
  its paths passes the proposals of the model (\<open>None\<close> when the field is missing) through
  \<^verbatim>\<open>validateProposedConcepts\<close>, or, when that call fails, the heuristic fallback, whose
  \<^verbatim>\<open>proposedConcepts\<close> is undefined. A failure of \<^verbatim>\<open>autoAcceptProposals\<close> is caught and
  replaced by zero counts.
\<close>

datatype llm_outcome = LLMReturned "Concept list option" | LLMFailed

definition result_proposedConcepts :: "llm_outcome \<Rightarrow> Concept list option" where
  "result_proposedConcepts r =
     (case r of
        LLMReturned raw \<Rightarrow> Some (validateProposedConcepts raw)
      | LLMFailed \<Rightarrow> None)"

definition enrich_autoAccept ::
  "'w Services \<Rightarrow> llm_outcome \<Rightarrow> 'w \<Rightarrow> Counts option \<times> call list \<times> 'w" where
  "enrich_autoAccept S r w =
     (let validatedProposals = (case result_proposedConcepts r of Some ps \<Rightarrow> ps | None \<Rightarrow> [])
      in if length validatedProposals > 0 then
           (case autoAcceptProposals S validatedProposals w of
              (Inl error, calls, w1) \<Rightarrow> (Some \<lparr>accepted = 0, rejected = 0\<rparr>, calls, w1)
            | (Inr counts, calls, w1) \<Rightarrow> (Some counts, calls, w1))
         else (None, [], w))"

subsection \<open>Reading a log\<close>

fun proposal_of :: "call \<Rightarrow> Concept" where
  "proposal_of (Embedded p) = p"
| "proposal_of (Retrieved p) = p"
| "proposal_of (Judged p c) = p"
| "proposal_of (CountedRejected p) = p"
| "proposal_of (Added p) = p"
| "proposal_of (Stored p) = p"
| "proposal_of (CountedAccepted p) = p"

definition added :: "call list \<Rightarrow> Concept list" where
  "added calls = concat (map (\<lambda>c. case c of Added p \<Rightarrow> [p] | _ \<Rightarrow> []) calls)"

definition stored :: "call list \<Rightarrow> Concept list" where
  "stored calls = concat (map (\<lambda>c. case c of Stored p \<Rightarrow> [p] | _ \<Rightarrow> []) calls)"

definition counted_accepted :: "call list \<Rightarrow> Concept list" where
  "counted_accepted calls = concat (map (\<lambda>c. case c of CountedAccepted p \<Rightarrow> [p] | _ \<Rightarrow> []) calls)"

definition counted_rejected :: "call list \<Rightarrow> Concept list" where
  "counted_rejected calls = concat (map (\<lambda>c. case c of CountedRejected p \<Rightarrow> [p] | _ \<Rightarrow> []) calls)"

subsection \<open>Example services\<close>

text \<open>
  A world that is the list of the stored concepts: every stored concept is a candidate for
  every proposal, additions succeed, and the judge is an Ollama model whose answer to the
  request is given.
\<close>

definition demo_services :: "string option Response promise \<Rightarrow> Concept list Services" where
  "demo_services reply =
     \<lparr>embed = (\<lambda>t w. (Inr [Num 1], w)),
      findSimilarConcepts = (\<lambda>v threshold w. (Inr w, w)),
      addConcept = (\<lambda>c w. (Inr (), w @ [c])),
      storeConceptEmbedding = (\<lambda>i v w. (Inr (), w)),
      judge_provider = ''ollama'',
      AI_GATEWAY_API_KEY = None,
      generateText = (\<lambda>p w. (Rejected ''no gateway'', w)),
      fetch_generate = (\<lambda>p w. (reply, w))\<rparr>"

definition judge_says :: "string \<Rightarrow> string option Response promise" where
  "judge_says answer = Resolved \<lparr>ok = True, body_text = Resolved [], body_json = Resolved (Some answer)\<rparr>"

definition machine_learning :: Concept where
  "machine_learning =
     \<lparr>id' = ''programming/machine-learning'', prefLabel = ''Machine Learning'',
      altLabels = None, definition' = None\<rparr>"

definition ml :: Concept where
  "ml = \<lparr>id' = ''programming/ml'', prefLabel = ''ML'', altLabels = None, definition' = None\<rparr>"

definition new_concept :: Concept where
  "new_concept = \<lparr>id' = ''new/concept'', prefLabel = ''New Concept'',
                   altLabels = None, definition' = None\<rparr>"

section \<open>Properties of getAdaptiveBatchSize\<close>

lemma floor_quarter: "nat \<lfloor>of_nat b * (0.25 :: rat)\<rfloor> = b div 4"
proof -
  have "of_nat b * (0.25 :: rat) = of_nat b / of_nat 4" by simp
  then show ?thesis by (simp only: floor_divide_of_nat_eq nat_int)
qed

lemma floor_half: "nat \<lfloor>of_nat b * (0.5 :: rat)\<rfloor> = b div 2"
proof -
  have "of_nat b * (0.5 :: rat) = of_nat b / of_nat 2" by simp
  then show ?thesis by (simp only: floor_divide_of_nat_eq nat_int)
qed

lemma floor_three_quarters: "nat \<lfloor>of_nat b * (0.75 :: rat)\<rfloor> = (3 * b) div 4"
proof -
  have "of_nat b * (0.75 :: rat) = of_nat (3 * b) / of_nat 4" by simp
  then show ?thesis by (simp only: floor_divide_of_nat_eq nat_int)
qed

text \<open>
  The scaled sizes are the whole-number quotients of the table: a quarter, a half and
  three quarters of the base size, each raised to 10.
\<close>

lemma getAdaptiveBatchSize_scaled:
  "getAdaptiveBatchSize (Some mem) b =
     (let r = js_div (heapUsed mem) (heapTotal mem) in
      if js_gt r 0.85 then max 10 (b div 4)
      else if js_gt r 0.7 then max 10 (b div 2)
      else if js_gt r 0.5 then max 10 ((3 * b) div 4)
      else b)"
  unfolding getAdaptiveBatchSize_def floor_quarter floor_half floor_three_quarters
  by simp

text \<open>
  C7, as stated: the adaptive batch size is never below 10. It fails for a base size below
  10 while at most half of the heap is in use: the base size 5 comes back as 5.
\<close>

theorem getAdaptiveBatchSize_below_floor:
  "\<not> 10 \<le> getAdaptiveBatchSize (Some \<lparr>heapUsed = 10, heapTotal = 100\<rparr>) 5"
  by (simp add: getAdaptiveBatchSize_scaled js_div_def)

text \<open>
  C7, amended: when heap statistics are available and more than half of the heap is in
  use, the adaptive batch size is at least 10; when at most half is in use, or when there
  are no heap statistics, it is the base size itself.
\<close>

theorem getAdaptiveBatchSize_floor_under_pressure:
  "(js_gt (js_div (heapUsed mem) (heapTotal mem)) 0.5 \<longrightarrow>
      10 \<le> getAdaptiveBatchSize (Some mem) b) \<and>
   (\<not> js_gt (js_div (heapUsed mem) (heapTotal mem)) 0.5 \<longrightarrow>
      getAdaptiveBatchSize (Some mem) b = b) \<and>
   getAdaptiveBatchSize None b = b"
proof (intro conjI impI)
  assume "js_gt (js_div (heapUsed mem) (heapTotal mem)) 0.5"
  then show "10 \<le> getAdaptiveBatchSize (Some mem) b"
    by (simp add: getAdaptiveBatchSize_scaled Let_def)
next
  assume low: "\<not> js_gt (js_div (heapUsed mem) (heapTotal mem)) 0.5"
  show "getAdaptiveBatchSize (Some mem) b = b"
  proof (cases "js_div (heapUsed mem) (heapTotal mem)")
    case (Num x)
    with low show ?thesis by (simp add: getAdaptiveBatchSize_scaled)
  qed (use low in \<open>simp_all add: getAdaptiveBatchSize_scaled\<close>)
next
  show "getAdaptiveBatchSize None b = b"
    by (simp add: getAdaptiveBatchSize_def)
qed

theorem getAdaptiveBatchSize_floor_under_pressure_witness:
  "js_gt (js_div 90 100) 0.5 \<and>
   10 \<le> getAdaptiveBatchSize (Some \<lparr>heapUsed = 90, heapTotal = 100\<rparr>) 8 \<and>
   \<not> js_gt (js_div 10 100) 0.5 \<and>
   getAdaptiveBatchSize (Some \<lparr>heapUsed = 10, heapTotal = 100\<rparr>) 8 = 8"
  using getAdaptiveBatchSize_floor_under_pressure [of "\<lparr>heapUsed = 90, heapTotal = 100\<rparr>" 8]
    getAdaptiveBatchSize_floor_under_pressure [of "\<lparr>heapUsed = 10, heapTotal = 100\<rparr>" 8]
  by (simp add: js_div_def)
section \<open>Properties of processInBatches\<close>

lemma lt_ceil_div: "0 < b \<Longrightarrow> k < ceil_div n b \<longleftrightarrow> k * b < n"
proof -
  assume b: "0 < b"
  have "k < nat \<lceil>(of_nat n / of_nat b :: rat)\<rceil> \<longleftrightarrow> int k < \<lceil>(of_nat n / of_nat b :: rat)\<rceil>"
    by linarith
  also have "\<dots> \<longleftrightarrow> (of_int (int k) :: rat) < of_nat n / of_nat b"
    by (rule less_ceiling_iff)
  also have "\<dots> \<longleftrightarrow> (of_nat (k * b) :: rat) < of_nat n"
    using b by (simp add: pos_less_divide_eq)
  also have "\<dots> \<longleftrightarrow> k * b < n"
    by (simp only: of_nat_less_iff)
  finally show ?thesis by (simp add: ceil_div_def)
qed

lemma Math_ceil_js_div: "0 < b \<Longrightarrow> Math_ceil (js_div n b) = Num (of_nat (ceil_div n b))"
  by (simp add: js_div_def ceil_div_def)

lemma js_lt_of_nat [simp]: "js_lt k (Num (of_nat t)) \<longleftrightarrow> k < t"
  by simp

lemma js_lt_pred [simp]: "js_lt k (js_sub (Num (of_nat t)) 1) \<longleftrightarrow> k + 1 < t"
proof -
  have "(of_nat k :: rat) < of_nat t - 1 \<longleftrightarrow> (of_nat (k + 1) :: rat) < of_nat t"
    by (simp add: algebra_simps)
  also have "\<dots> \<longleftrightarrow> k + 1 < t" by (simp only: of_nat_less_iff)
  finally show ?thesis by simp
qed

lemma completion_order_set: "is_completion_order n order \<Longrightarrow> set order = {0..<n}"
proof -
  assume "is_completion_order n order"
  then have "sort order = [0..<n]" by (simp add: is_completion_order_def)
  then have "set (sort order) = set [0..<n]" by simp
  then show ?thesis by simp
qed

lemma completion_order_mset: "is_completion_order n order \<Longrightarrow> mset order = mset [0..<n]"
proof -
  assume "is_completion_order n order"
  then have "sort order = [0..<n]" by (simp add: is_completion_order_def)
  then have "mset (sort order) = mset [0..<n]" by simp
  then show ?thesis by simp
qed

lemma completion_order_rev: "is_completion_order n (rev [0..<n])"
  unfolding is_completion_order_def
  by (rule properties_for_sort) simp_all

lemma mapEffect_run_Inr:
  "mapEffect_run process xs order slots done = (d, Inr slots') \<Longrightarrow>
     d = done @ order \<and> (\<forall>i\<in>set order. \<exists>r. process (xs ! i) = Inr r) \<and>
     slots' = fold (\<lambda>i s. s[i := Some (projr (process (xs ! i)))]) order slots"
proof (induction order arbitrary: slots "done")
  case Nil
  then show ?case by simp
next
  case (Cons i order)
  show ?case
  proof (cases "process (xs ! i)")
    case (Inl e)
    with Cons.prems show ?thesis by simp
  next
    case (Inr r)
    with Cons.prems have "mapEffect_run process xs order (slots[i := Some r]) (done @ [i]) = (d, Inr slots')"
      by simp
    from Cons.IH [OF this] Inr show ?thesis by simp
  qed
qed

lemma mapEffect_run_Inl:
  "mapEffect_run process xs order slots done = (d, Inl e) \<Longrightarrow>
     \<exists>pre i post. order = pre @ i # post \<and> d = done @ pre \<and> process (xs ! i) = Inl e \<and>
       (\<forall>j\<in>set pre. \<exists>r. process (xs ! j) = Inr r)"
proof (induction order arbitrary: slots "done")
  case Nil
  then show ?case by simp
next
  case (Cons i order)
  show ?case
  proof (cases "process (xs ! i)")
    case (Inl e')
    with Cons.prems have "d = done" "e' = e" by simp_all
    with Inl show ?thesis by (intro exI [of _ "[]"] exI [of _ i] exI [of _ order]) simp
  next
    case (Inr r)
    with Cons.prems have "mapEffect_run process xs order (slots[i := Some r]) (done @ [i]) = (d, Inl e)"
      by simp
    from Cons.IH [OF this] obtain pre j post where
      "order = pre @ j # post" "d = (done @ [i]) @ pre" "process (xs ! j) = Inl e"
      "\<forall>k\<in>set pre. \<exists>r. process (xs ! k) = Inr r" by blast
    with Inr show ?thesis
      by (intro exI [of _ "i # pre"] exI [of _ j] exI [of _ post]) simp
  qed
qed

lemma fold_slots_length:
  "length (fold (\<lambda>i s. s[i := g i]) order slots) = length slots"
  by (induction order arbitrary: slots) simp_all

lemma fold_slots_nth:
  "j < length slots \<Longrightarrow>
     fold (\<lambda>i s. s[i := g i]) order slots ! j = (if j \<in> set order then g j else slots ! j)"
proof (induction order arbitrary: slots)
  case Nil
  then show ?case by simp
next
  case (Cons i order)
  then show ?case by (cases "i = j") auto
qed

lemma map_filter_Some: "List.map_filter (\<lambda>s. s) (map (\<lambda>x. Some (f x)) xs) = map f xs"
  by (induction xs) (simp_all add: List.map_filter_simps)

lemma mapEffect_Inr:
  assumes "is_completion_order (length xs) order"
    and "mapEffect process n order xs = (d, Inr rs)"
  shows "d = order" and "rs = map (\<lambda>x. projr (process x)) xs"
    and "\<forall>x\<in>set xs. \<exists>r. process x = Inr r"
proof -
  from assms(2) obtain slots' where run:
    "mapEffect_run process xs order (replicate (length xs) None) [] = (d, Inr slots')"
    and rs: "rs = List.map_filter (\<lambda>s. s) slots'"
    by (auto simp: mapEffect_def split: prod.splits sum.splits)
  note facts = mapEffect_run_Inr [OF run]
  from facts show "d = order" by simp
  have set: "set order = {0..<length xs}" by (rule completion_order_set [OF assms(1)])
  have "slots' = map (\<lambda>x. Some (projr (process x))) xs"
  proof (rule nth_equalityI)
    show "length slots' = length (map (\<lambda>x. Some (projr (process x))) xs)"
      using facts by (simp add: fold_slots_length)
  next
    fix j assume "j < length slots'"
    then have j: "j < length xs" using facts by (simp add: fold_slots_length)
    then show "slots' ! j = map (\<lambda>x. Some (projr (process x))) xs ! j"
      using facts set by (simp add: fold_slots_nth)
  qed
  then show "rs = map (\<lambda>x. projr (process x)) xs"
    using rs by (simp add: map_filter_Some)
  show "\<forall>x\<in>set xs. \<exists>r. process x = Inr r"
  proof
    fix x assume "x \<in> set xs"
    then obtain j where "j < length xs" "xs ! j = x" by (auto simp: in_set_conv_nth)
    with facts set show "\<exists>r. process x = Inr r" by auto
  qed
qed

lemma mapEffect_Inl:
  assumes "mapEffect process n order xs = (d, Inl e)"
  shows "\<exists>i post. order = d @ i # post \<and> process (xs ! i) = Inl e"
proof -
  from assms have "mapEffect_run process xs order (replicate (length xs) None) [] = (d, Inl e)"
    by (auto simp: mapEffect_def split: prod.splits sum.splits)
  from mapEffect_run_Inl [OF this] show ?thesis by auto
qed

lemma batch_slice_take_drop: "batch_slice items B k = take B (drop (k * B) items)"
  by (simp add: batch_slice_def slice_def Let_def min_def)

lemma drop_batches: "drop (k * B) items = batch_slice items B k @ drop ((k + 1) * B) items"
proof -
  have "drop ((k + 1) * B) items = drop B (drop (k * B) items)"
    by (simp add: add.commute)
  then show ?thesis
    unfolding batch_slice_take_drop by (simp only: append_take_drop_id)
qed

lemma length_batch_slice: "length (batch_slice items B k) = min B (length items - k * B)"
  by (simp add: batch_slice_take_drop min.commute)

lemma batch_body_Inr:
  assumes B: "0 < batchSize config"
    and ord: "is_completion_order (length (batch_slice items (batchSize config) b)) (sched b)"
    and len: "length results = min (b * batchSize config) (length items)"
    and guard: "b * batchSize config < length items"
    and T: "T = ceil_div (length items) (batchSize config)"
    and body: "batch_body items process config afterBatch onProgress sched (Num (of_nat T)) b results trace
                 = Inr (results1, trace1)"
  shows "results1 = results @ map (\<lambda>x. projr (process x)) (batch_slice items (batchSize config) b)"
    and "trace1 = trace @ batch_segment items config (hook_enabled config afterBatch) onProgress sched b"
    and "length results1 = min ((b + 1) * batchSize config) (length items)"
    and "\<forall>x\<in>set (batch_slice items (batchSize config) b). \<exists>r. process x = Inr r"
proof -
  let ?batch = "batch_slice items (batchSize config) b"
  from body obtain d rs where m: "mapEffect process (concurrency config) (sched b) ?batch = (d, Inr rs)"
    by (auto simp: batch_body_def Let_def split: prod.splits sum.splits)
  note me = mapEffect_Inr [OF ord m]
  from me(3) show "\<forall>x\<in>set ?batch. \<exists>r. process x = Inr r" .
  from body m show r1: "results1 = results @ map (\<lambda>x. projr (process x)) ?batch"
    using me(2) by (auto simp: batch_body_def Let_def split: option.splits if_splits)
  have "length results1 = b * batchSize config + min (batchSize config) (length items - b * batchSize config)"
    using r1 len guard by (simp add: length_batch_slice)
  then show l1: "length results1 = min ((b + 1) * batchSize config) (length items)"
    using guard by (simp add: min_def) arith
  from body m me(1) l1 r1 T show
    "trace1 = trace @ batch_segment items config (hook_enabled config afterBatch) onProgress sched b"
    by (auto simp: batch_body_def Let_def batch_segment_def item_events_def progress_of_def
          hook_enabled_def split: option.splits if_splits)
qed

lemma batch_body_Inl:
  assumes B: "0 < batchSize config"
    and ord: "is_completion_order (length (batch_slice items (batchSize config) b)) (sched b)"
    and len: "length results = min (b * batchSize config) (length items)"
    and guard: "b * batchSize config < length items"
    and T: "T = ceil_div (length items) (batchSize config)"
    and body: "batch_body items process config afterBatch onProgress sched (Num (of_nat T)) b results trace
                 = Inl (tr, e)"
  shows "(\<exists>d i post. sched b = d @ i # post \<and>
            process (batch_slice items (batchSize config) b ! i) = Inl e \<and>
            tr = trace @ item_events items (batchSize config) b d) \<or>
         (hook_enabled config afterBatch \<and> (\<exists>h t. afterBatch = Some h \<and> h t = Some e) \<and>
            tr = trace @ item_events items (batchSize config) b (sched b) @
                 (if onProgress then [Progress (progress_of items (batchSize config) b)] else []) @
                 [AfterBatch b])"
proof -
  let ?batch = "batch_slice items (batchSize config) b"
  obtain d r where m: "mapEffect process (concurrency config) (sched b) ?batch = (d, r)"
    by (cases "mapEffect process (concurrency config) (sched b) ?batch") blast
  show ?thesis
  proof (cases r)
    case (Inl e')
    from mapEffect_Inl [OF m [unfolded Inl]] obtain i post where
      "sched b = d @ i # post" "process (?batch ! i) = Inl e'"
      by blast
    moreover from body m Inl have "tr = trace @ item_events items (batchSize config) b d" "e' = e"
      by (simp_all add: batch_body_def Let_def item_events_def)
    ultimately show ?thesis by blast
  next
    case (Inr rs)
    note me = mapEffect_Inr [OF ord m [unfolded Inr]]
    have "length (results @ rs) =
        b * batchSize config + min (batchSize config) (length items - b * batchSize config)"
      using me(2) len guard by (simp add: length_batch_slice)
    then have l1: "length (results @ rs) = min ((b + 1) * batchSize config) (length items)"
      using guard by (simp add: min_def) arith
    from body m Inr me(1) l1 T show ?thesis
      by (auto simp: batch_body_def Let_def item_events_def progress_of_def
            hook_enabled_def split: option.splits if_splits)
  qed
qed

lemma batch_loop_returns:
  "\<exists>out. batch_loop body (Num (of_nat T)) k results trace = Some out"
proof (induction "T - k" arbitrary: k results trace)
  case 0
  then have "\<not> k < T" by simp
  then show ?case by (subst batch_loop.simps) simp
next
  case (Suc n)
  then have k: "k < T" and n: "n = T - (k + 1)" by simp_all
  show ?case
  proof (cases "body k results trace")
    case (Inl a)
    with k show ?thesis by (subst batch_loop.simps) (simp split: prod.splits)
  next
    case (Inr a)
    obtain results1 trace1 where a: "a = (results1, trace1)" by (cases a)
    from Suc.hyps(1) [OF n, of results1 trace1] Inr a k show ?thesis
      by (subst batch_loop.simps) simp
  qed
qed

lemma batch_loop_shape:
  assumes B: "0 < batchSize config"
    and ord: "\<And>b. is_completion_order (length (batch_slice items (batchSize config) b)) (sched b)"
    and T: "T = ceil_div (length items) (batchSize config)"
  shows "k \<le> T \<Longrightarrow> length results = min (k * batchSize config) (length items) \<Longrightarrow>
     batch_loop (batch_body items process config afterBatch onProgress sched (Num (of_nat T)))
        (Num (of_nat T)) k results trace = Some (tr, out) \<Longrightarrow>
     \<exists>m rest. k \<le> m \<and> m \<le> T \<and>
        tr = trace @ concat (map (batch_segment items config (hook_enabled config afterBatch)
                                     onProgress sched) [k..<m]) @ rest \<and>
        (case out of
           Inr res \<Rightarrow> m = T \<and> rest = [] \<and>
              res = results @ map (\<lambda>x. projr (process x)) (drop (k * batchSize config) items) \<and>
              (\<forall>x\<in>set (drop (k * batchSize config) items). \<exists>r. process x = Inr r)
         | Inl e \<Rightarrow> m < T \<and>
             ((\<exists>d i post. sched m = d @ i # post \<and>
                  process (batch_slice items (batchSize config) m ! i) = Inl e \<and>
                  rest = item_events items (batchSize config) m d) \<or>
              (hook_enabled config afterBatch \<and> (\<exists>h t. afterBatch = Some h \<and> h t = Some e) \<and>
                  rest = item_events items (batchSize config) m (sched m) @
                    (if onProgress then [Progress (progress_of items (batchSize config) m)] else []) @
                    [AfterBatch m])))"
proof (induction "T - k" arbitrary: k results trace)
  case 0
  then have kT: "k = T" by simp
  then have nolt: "\<not> k * batchSize config < length items"
    using lt_ceil_div [OF B, of k "length items"] T by simp
  from 0(4) kT have "tr = trace" "out = Inr results"
    by (subst (asm) batch_loop.simps, simp)+
  with kT nolt show ?case
    by (intro exI [of _ T] exI [of _ "[]"]) simp
next
  case (Suc n)
  let ?B = "batchSize config"
  let ?body = "batch_body items process config afterBatch onProgress sched (Num (of_nat T))"
  let ?seg = "batch_segment items config (hook_enabled config afterBatch) onProgress sched"
  from Suc.hyps(2) have k: "k < T" and n: "n = T - (k + 1)" by simp_all
  from k have guard: "k * ?B < length items"
    using lt_ceil_div [OF B, of k "length items"] T by simp
  show ?case
  proof (cases "?body k results trace")
    case (Inl a)
    obtain tr1 e where a: "a = (tr1, e)" by (cases a)
    from Suc.prems(3) k Inl a have out: "tr = tr1" "out = Inl e"
      by (subst (asm) batch_loop.simps, simp)+
    from batch_body_Inl [OF B ord Suc.prems(2) guard T Inl [unfolded a]]
    have "\<exists>rest. tr1 = trace @ rest \<and>
        ((\<exists>d i post. sched k = d @ i # post \<and>
                  process (batch_slice items ?B k ! i) = Inl e \<and>
                  rest = item_events items ?B k d) \<or>
         (hook_enabled config afterBatch \<and> (\<exists>h t. afterBatch = Some h \<and> h t = Some e) \<and>
                  rest = item_events items ?B k (sched k) @
                    (if onProgress then [Progress (progress_of items ?B k)] else []) @
                    [AfterBatch k]))"
      by (elim disjE exE conjE) (rule exI, rule conjI, assumption, blast)+
    then obtain rest where rest: "tr1 = trace @ rest"
        "(\<exists>d i post. sched k = d @ i # post \<and>
                  process (batch_slice items ?B k ! i) = Inl e \<and>
                  rest = item_events items ?B k d) \<or>
         (hook_enabled config afterBatch \<and> (\<exists>h t. afterBatch = Some h \<and> h t = Some e) \<and>
                  rest = item_events items ?B k (sched k) @
                    (if onProgress then [Progress (progress_of items ?B k)] else []) @
                    [AfterBatch k])"
      by blast
    show ?thesis
      by (rule exI [of _ k], rule exI [of _ rest]) (use rest out k in simp)
  next
    case (Inr a)
    obtain results1 trace1 where a: "a = (results1, trace1)" by (cases a)
    note bb = batch_body_Inr [OF B ord Suc.prems(2) guard T Inr [unfolded a]]
    from Suc.prems(3) k Inr a have loop:
      "batch_loop ?body (Num (of_nat T)) (k + 1) results1 trace1 = Some (tr, out)"
      by (subst (asm) batch_loop.simps) simp
    from k have k1: "k + 1 \<le> T" by simp
    from Suc.hyps(1) [OF n k1 bb(3) loop] obtain m rest where
      m: "k + 1 \<le> m" "m \<le> T"
      and tr: "tr = trace1 @ concat (map ?seg [k + 1..<m]) @ rest"
      and out: "(case out of
           Inr res \<Rightarrow> m = T \<and> rest = [] \<and>
              res = results1 @ map (\<lambda>x. projr (process x)) (drop ((k + 1) * ?B) items) \<and>
              (\<forall>x\<in>set (drop ((k + 1) * ?B) items). \<exists>r. process x = Inr r)
         | Inl e \<Rightarrow> m < T \<and>
             ((\<exists>d i post. sched m = d @ i # post \<and>
                  process (batch_slice items ?B m ! i) = Inl e \<and>
                  rest = item_events items ?B m d) \<or>
              (hook_enabled config afterBatch \<and> (\<exists>h t. afterBatch = Some h \<and> h t = Some e) \<and>
                  rest = item_events items ?B m (sched m) @
                    (if onProgress then [Progress (progress_of items ?B m)] else []) @
                    [AfterBatch m])))"
      by blast
    from m have upt: "[k..<m] = k # [k + 1..<m]" by (simp add: upt_conv_Cons)
    have tr': "tr = trace @ concat (map ?seg [k..<m]) @ rest"
      using tr bb(2) upt by simp
    have out': "(case out of
           Inr res \<Rightarrow> m = T \<and> rest = [] \<and>
              res = results @ map (\<lambda>x. projr (process x)) (drop (k * ?B) items) \<and>
              (\<forall>x\<in>set (drop (k * ?B) items). \<exists>r. process x = Inr r)
         | Inl e \<Rightarrow> m < T \<and>
             ((\<exists>d i post. sched m = d @ i # post \<and>
                  process (batch_slice items ?B m ! i) = Inl e \<and>
                  rest = item_events items ?B m d) \<or>
              (hook_enabled config afterBatch \<and> (\<exists>h t. afterBatch = Some h \<and> h t = Some e) \<and>
                  rest = item_events items ?B m (sched m) @
                    (if onProgress then [Progress (progress_of items ?B m)] else []) @
                    [AfterBatch m])))"
    proof (cases out)
      case (Inl e)
      with out show ?thesis by simp
    next
      case (Inr res)
      with out have res: "res = results1 @ map (\<lambda>x. projr (process x)) (drop ((k + 1) * ?B) items)"
        and rest: "m = T" "rest = []"
        and ok: "\<forall>x\<in>set (drop ((k + 1) * ?B) items). \<exists>r. process x = Inr r"
        by simp_all
      have "res = results @ map (\<lambda>x. projr (process x)) (drop (k * ?B) items)"
        unfolding res bb(1) by (subst (2) drop_batches) simp
      moreover have "\<forall>x\<in>set (drop (k * ?B) items). \<exists>r. process x = Inr r"
        using ok bb(4) by (subst drop_batches) auto
      ultimately show ?thesis using Inr rest by simp
    qed
    from m tr' out' show ?thesis
      by (intro exI [of _ m] exI [of _ rest]) simp
  qed
qed

lemma processInBatches_returns:
  assumes "0 < batchSize config"
  shows "\<exists>out. processInBatches items process config afterBatch onProgress sched = Some out"
  unfolding processInBatches_def Let_def Math_ceil_js_div [OF assms]
  by (rule batch_loop_returns)

lemma processInBatches_shape:
  assumes B: "0 < batchSize config"
    and ord: "\<And>b. is_completion_order (length (batch_slice items (batchSize config) b)) (sched b)"
    and run: "processInBatches items process config afterBatch onProgress sched = Some (tr, out)"
  shows "\<exists>m rest. m \<le> ceil_div (length items) (batchSize config) \<and>
        tr = concat (map (batch_segment items config (hook_enabled config afterBatch)
                            onProgress sched) [0..<m]) @ rest \<and>
        (case out of
           Inr res \<Rightarrow> m = ceil_div (length items) (batchSize config) \<and> rest = [] \<and>
              res = map (\<lambda>x. projr (process x)) items \<and>
              (\<forall>x\<in>set items. \<exists>r. process x = Inr r)
         | Inl e \<Rightarrow> m < ceil_div (length items) (batchSize config) \<and>
             ((\<exists>d i post. sched m = d @ i # post \<and>
                  process (batch_slice items (batchSize config) m ! i) = Inl e \<and>
                  rest = item_events items (batchSize config) m d) \<or>
              (hook_enabled config afterBatch \<and> (\<exists>h t. afterBatch = Some h \<and> h t = Some e) \<and>
                  rest = item_events items (batchSize config) m (sched m) @
                    (if onProgress then [Progress (progress_of items (batchSize config) m)] else []) @
                    [AfterBatch m])))"
proof -
  let ?T = "ceil_div (length items) (batchSize config)"
  from run have loop: "batch_loop
      (batch_body items process config afterBatch onProgress sched (Num (of_nat ?T)))
      (Num (of_nat ?T)) 0 [] [] = Some (tr, out)"
    by (simp add: processInBatches_def Let_def Math_ceil_js_div [OF B])
  have start: "0 \<le> ?T" "length ([] :: 'c list) = min (0 * batchSize config) (length items)"
    by simp_all
  from batch_loop_shape [OF B ord refl start loop] show ?thesis
    by (simp only: append_Nil mult_zero_left drop_0 le0 simp_thms)
qed

lemma items_of_batch_append [simp]:
  "items_of_batch b (xs @ ys) = items_of_batch b xs @ items_of_batch b ys"
  by (induction b xs rule: items_of_batch.induct) simp_all

lemma progress_events_append [simp]:
  "progress_events (xs @ ys) = progress_events xs @ progress_events ys"
  by (induction xs rule: progress_events.induct) simp_all

lemma items_of_batch_item_events:
  "items_of_batch b (item_events items B b' order) =
     (if b = b' then map (\<lambda>i. batch_slice items B b ! i) order else [])"
  by (induction order) (auto simp: item_events_def)

lemma progress_events_item_events [simp]: "progress_events (item_events items B b order) = []"
  by (induction order) (simp_all add: item_events_def)

lemma filter_item_events [simp]:
  "filter (\<lambda>e. is_item e \<or> is_hook e) (item_events items B b order) = item_events items B b order"
  "filter is_hook (item_events items B b order) = []"
  by (induction order) (simp_all add: item_events_def)

lemma items_of_batch_segment:
  "items_of_batch b (batch_segment items config hooked onProgress sched b') =
     (if b = b' then map (\<lambda>i. batch_slice items (batchSize config) b ! i) (sched b) else [])"
  by (simp add: batch_segment_def items_of_batch_item_events)



lemma items_of_batch_segments:
  "items_of_batch b (concat (map (batch_segment items config hooked onProgress sched) [0..<m])) =
     (if b < m then map (\<lambda>i. batch_slice items (batchSize config) b ! i) (sched b) else [])"
  by (induction m) (auto simp: items_of_batch_segment less_Suc_eq)



lemma completion_order_batch:
  assumes "is_completion_order (length xs) order"
  shows "mset (map (\<lambda>i. xs ! i) order) = mset xs"
proof -
  have "mset (map (\<lambda>i. xs ! i) order) = image_mset (\<lambda>i. xs ! i) (mset order)" by simp
  also have "\<dots> = image_mset (\<lambda>i. xs ! i) (mset [0..<length xs])"
    by (simp only: completion_order_mset [OF assms])
  also have "\<dots> = mset (map (\<lambda>i. xs ! i) [0..<length xs])" by simp
  also have "\<dots> = mset xs" by (simp only: map_nth)
  finally show ?thesis .
qed

lemma concat_batches:
  assumes "0 < B"
  shows "concat (map (batch_slice items B) [0..<m]) = take (m * B) items"
proof (induction m)
  case 0
  then show ?case by simp
next
  case (Suc m)
  have "take (m * B) items @ batch_slice items B m = take (m * B + B) items"
    by (simp add: batch_slice_take_drop take_add)
  with Suc show ?case by (simp add: add.commute)
qed

lemma ceil_div_covers: "0 < B \<Longrightarrow> N \<le> ceil_div N B * B"
  using lt_ceil_div [of B "ceil_div N B" N] by simp


lemma ceil_div_eq:
  assumes B: "0 < B"
  shows "ceil_div N B = (if N mod B = 0 then N div B else N div B + 1)"
proof -
  let ?c = "if N mod B = 0 then N div B else N div B + 1"
  have N: "N = N div B * B + N mod B" by simp
  have up: "N \<le> ?c * B"
  proof (cases "N mod B = 0")
    case True
    with N show ?thesis by simp
  next
    case False
    have "N mod B < B" using B by simp
    with N have "N < N div B * B + B" by linarith
    with False show ?thesis by simp
  qed
  have low: "?c = 0 \<or> (?c - 1) * B < N"
  proof (cases "N mod B = 0")
    case True
    show ?thesis
    proof (cases "N div B = 0")
      case True
      with \<open>N mod B = 0\<close> show ?thesis by simp
    next
      case False
      then have "(N div B - 1) * B + B = N div B * B"
        by (simp add: algebra_simps)
      with N True B have "(N div B - 1) * B < N" by linarith
      with True show ?thesis by simp
    qed
  next
    case False
    with N have "N div B * B < N" by linarith
    with False show ?thesis by simp
  qed
  from up have "\<not> ?c < ceil_div N B" by (simp only: lt_ceil_div [OF B])
  moreover from low have "?c = 0 \<or> ?c - 1 < ceil_div N B" by (simp only: lt_ceil_div [OF B])
  ultimately show ?thesis by linarith
qed

lemma last_batch_length:
  assumes B: "0 < B" and N: "xs \<noteq> []"
  shows "length (batch_slice xs B (ceil_div (length xs) B - 1)) =
           (if length xs mod B = 0 then B else length xs mod B)"
proof -
  let ?N = "length xs"
  have eq: "?N = ?N div B * B + ?N mod B" by simp
  show ?thesis
  proof (cases "?N mod B = 0")
    case True
    from N have "0 < ?N" by simp
    with True B have q: "0 < ?N div B" by (metis div_greater_zero_iff mod_less neq0_conv not_le)
    then have "(?N div B - 1) * B + B = ?N div B * B"
      by (metis Suc_pred' mult_Suc add.commute)
    with eq True have "?N - (?N div B - 1) * B = B" by linarith
    with True show ?thesis by (simp add: length_batch_slice ceil_div_eq [OF B])
  next
    case False
    from eq have "?N - ?N div B * B = ?N mod B" by linarith
    moreover have "?N mod B < B" using B by simp
    ultimately show ?thesis using False by (simp add: length_batch_slice ceil_div_eq [OF B])
  qed
qed

lemma full_batch_length:
  assumes B: "0 < B" and b: "b + 1 < ceil_div (length xs) B"
  shows "length (batch_slice xs B b) = B"
proof -
  from b have "(b + 1) * B < length xs" by (simp only: lt_ceil_div [OF B])
  then have "B \<le> length xs - b * B" by simp
  then show ?thesis by (simp add: length_batch_slice)
qed

lemma item_values_append [simp]: "item_values (xs @ ys) = item_values xs @ item_values ys"
  by (simp add: item_values_def)

lemma item_values_item_events [simp]:
  "item_values (item_events items B b order) = map (\<lambda>i. batch_slice items B b ! i) order"
  by (induction order) (simp_all add: item_events_def item_values_def)

lemma item_values_segment:
  "item_values (batch_segment items config hooked onProgress sched b) =
     map (\<lambda>i. batch_slice items (batchSize config) b ! i) (sched b)"
  by (simp add: batch_segment_def) (simp add: item_values_def)

lemma item_values_segments:
  assumes "\<And>b. is_completion_order (length (batch_slice items (batchSize config) b)) (sched b)"
  shows "mset (item_values (concat (map (batch_segment items config hooked onProgress sched) [0..<m]))) =
     mset (concat (map (batch_slice items (batchSize config)) [0..<m]))"
proof (induction m)
  case 0
  show ?case by (simp add: item_values_def)
next
  case (Suc m)
  from completion_order_batch [OF assms, of m]
  have "mset (map (\<lambda>i. batch_slice items (batchSize config) m ! i) (sched m)) =
          mset (batch_slice items (batchSize config) m)" .
  with Suc show ?case by (simp add: item_values_segment del: mset_map)
qed

lemma processInBatches_succeeds:
  assumes B: "0 < batchSize config"
    and ord: "\<And>b. is_completion_order (length (batch_slice items (batchSize config) b)) (sched b)"
    and items_ok: "\<forall>x\<in>set items. \<exists>r. process x = Inr r"
    and hook_ok: "\<forall>h t. afterBatch = Some h \<longrightarrow> h t = None"
  shows "\<exists>trace. processInBatches items process config afterBatch onProgress sched
            = Some (trace, Inr (map (\<lambda>x. projr (process x)) items))"
proof -
  from processInBatches_returns [OF B] obtain tr out where
    run: "processInBatches items process config afterBatch onProgress sched = Some (tr, out)"
    by (metis surj_pair)
  from processInBatches_shape [OF B ord run] obtain m rest where
    shape: "(case out of
           Inr res \<Rightarrow> m = ceil_div (length items) (batchSize config) \<and> rest = [] \<and>
              res = map (\<lambda>x. projr (process x)) items \<and>
              (\<forall>x\<in>set items. \<exists>r. process x = Inr r)
         | Inl e \<Rightarrow> m < ceil_div (length items) (batchSize config) \<and>
             ((\<exists>d i post. sched m = d @ i # post \<and>
                  process (batch_slice items (batchSize config) m ! i) = Inl e \<and>
                  rest = item_events items (batchSize config) m d) \<or>
              (hook_enabled config afterBatch \<and> (\<exists>h t. afterBatch = Some h \<and> h t = Some e) \<and>
                  rest = item_events items (batchSize config) m (sched m) @
                    (if onProgress then [Progress (progress_of items (batchSize config) m)] else []) @
                    [AfterBatch m])))"
    by blast
  show ?thesis
  proof (cases out)
    case (Inr res)
    with shape run show ?thesis by simp
  next
    case (Inl e)
    let ?batch = "batch_slice items (batchSize config) m"
    from shape Inl hook_ok obtain d i post where
      s: "sched m = d @ i # post" and f: "process (?batch ! i) = Inl e"
      by auto
    from s have "i \<in> set (sched m)" by simp
    then have "i < length ?batch" using completion_order_set [OF ord [of m]] by simp
    then have "?batch ! i \<in> set ?batch" by simp
    then have "?batch ! i \<in> set items"
      by (auto simp: batch_slice_take_drop dest: in_set_takeD in_set_dropD)
    with items_ok f show ?thesis by auto
  qed
qed

text \<open>
  C1: for a batch size \<open>B > 0\<close> and \<open>N\<close> items, whatever the concurrency setting and the
  order in which the items of a batch complete, \<^verbatim>\<open>processInBatches\<close> returns; the batches
  are the \<open>\<lceil>N / B\<rceil>\<close> consecutive slices of the items, all of \<open>B\<close> items but the last, which
  has \<open>N mod B\<close> items (\<open>B\<close> when \<open>N mod B = 0\<close>); in a run that succeeds every batch has
  processed exactly its items, and result \<open>i\<close> is the output of \<open>process\<close> on item \<open>i\<close>; and
  the run succeeds when no item and no hook invocation fails.
\<close>

theorem processInBatches_batches_and_order:
  assumes B: "0 < batchSize config"
    and ord: "\<And>b. is_completion_order (length (batch_slice items (batchSize config) b)) (sched b)"
  shows
   "(\<exists>out. processInBatches items process config afterBatch onProgress sched = Some out) \<and>
    concat (map (batch_slice items (batchSize config))
              [0..<ceil_div (length items) (batchSize config)]) = items \<and>
    (\<forall>b. b + 1 < ceil_div (length items) (batchSize config) \<longrightarrow>
         length (batch_slice items (batchSize config) b) = batchSize config) \<and>
    (items \<noteq> [] \<longrightarrow>
       length (batch_slice items (batchSize config) (ceil_div (length items) (batchSize config) - 1))
         = (if length items mod batchSize config = 0 then batchSize config
            else length items mod batchSize config)) \<and>
    (\<forall>trace results.
       processInBatches items process config afterBatch onProgress sched = Some (trace, Inr results) \<longrightarrow>
         length results = length items \<and>
         (\<forall>i<length items. process (items ! i) = Inr (results ! i)) \<and>
         (\<forall>b. mset (items_of_batch b trace) =
               (if b < ceil_div (length items) (batchSize config)
                then mset (batch_slice items (batchSize config) b) else {#})) \<and>
         mset (item_values trace) = mset items) \<and>
    ((\<forall>x\<in>set items. \<exists>r. process x = Inr r) \<and> (\<forall>h t. afterBatch = Some h \<longrightarrow> h t = None) \<longrightarrow>
       (\<exists>trace. processInBatches items process config afterBatch onProgress sched
            = Some (trace, Inr (map (\<lambda>x. projr (process x)) items))))"
proof (intro conjI allI impI)
  show "\<exists>out. processInBatches items process config afterBatch onProgress sched = Some out"
    by (rule processInBatches_returns [OF B])
next
  show "concat (map (batch_slice items (batchSize config))
              [0..<ceil_div (length items) (batchSize config)]) = items"
    using ceil_div_covers [OF B, of "length items"] by (simp add: concat_batches [OF B])
next
  fix b assume "b + 1 < ceil_div (length items) (batchSize config)"
  then show "length (batch_slice items (batchSize config) b) = batchSize config"
    by (rule full_batch_length [OF B])
next
  assume "items \<noteq> []"
  then show "length (batch_slice items (batchSize config) (ceil_div (length items) (batchSize config) - 1))
         = (if length items mod batchSize config = 0 then batchSize config
            else length items mod batchSize config)"
    by (rule last_batch_length [OF B])
next
  fix trace results
  assume run: "processInBatches items process config afterBatch onProgress sched
                 = Some (trace, Inr results)"
  from processInBatches_shape [OF B ord run]
  have tr: "trace = concat (map (batch_segment items config (hook_enabled config afterBatch)
                            onProgress sched) [0..<ceil_div (length items) (batchSize config)])"
    and res: "results = map (\<lambda>x. projr (process x)) items"
    and ok: "\<forall>x\<in>set items. \<exists>r. process x = Inr r"
    by auto
  from res show "length results = length items" by simp
  {
    fix i assume i: "i < length items"
    then have "items ! i \<in> set items" by simp
    with ok obtain r where "process (items ! i) = Inr r" by blast
    with res i show "process (items ! i) = Inr (results ! i)" by simp
  }
  {
    fix b
    show "mset (items_of_batch b trace) =
               (if b < ceil_div (length items) (batchSize config)
                then mset (batch_slice items (batchSize config) b) else {#})"
      unfolding tr items_of_batch_segments
      using completion_order_batch [OF ord, of b] by simp
  }
  show "mset (item_values trace) = mset items"
    unfolding tr item_values_segments [OF ord] concat_batches [OF B]
    using ceil_div_covers [OF B, of "length items"] by simp
next
  assume "(\<forall>x\<in>set items. \<exists>r. process x = Inr r) \<and> (\<forall>h t. afterBatch = Some h \<longrightarrow> h t = None)"
  then show "\<exists>trace. processInBatches items process config afterBatch onProgress sched
            = Some (trace, Inr (map (\<lambda>x. projr (process x)) items))"
    using processInBatches_succeeds [OF B ord] by blast
qed



lemma processed_progress_of [simp]:
  "processed (progress_of items B b) = min ((b + 1) * B) (length items)"
  "total (progress_of items B b) = length items"
  "batch (progress_of items B b) = b + 1"
  "percent (progress_of items B b) =
     Math_round (js_mul (js_div (min ((b + 1) * B) (length items)) (length items)) 100)"
  by (simp_all add: progress_of_def progress_report_def)












lemma reverse_order_ok:
  "is_completion_order (length (batch_slice items bsize b)) (reverse_order items bsize b)"
  unfolding reverse_order_def by (rule completion_order_rev)

theorem processInBatches_batches_and_order_witness:
  "0 < batchSize cfg2 \<and>
   (\<exists>trace. processInBatches [1, 2, 3, 4, 5] double cfg2 (Some (\<lambda>t. None)) True
               (reverse_order [1, 2, 3, 4, 5] 2) = Some (trace, Inr [2, 4, 6, 8, 10])) \<and>
   concat (map (batch_slice [1, 2, 3, 4, 5 :: nat] 2) [0..<ceil_div 5 2]) = [1, 2, 3, 4, 5] \<and>
   length (batch_slice [1, 2, 3, 4, 5 :: nat] 2 (ceil_div 5 2 - 1)) = 1"
proof -
  have B: "0 < batchSize cfg2" by (simp add: cfg2_def)
  have ord: "\<And>b. is_completion_order (length (batch_slice [1, 2, 3, 4, 5 :: nat] (batchSize cfg2) b))
                  (reverse_order [1, 2, 3, 4, 5] 2 b)"
    by (simp add: cfg2_def reverse_order_ok)
  note inst = processInBatches_batches_and_order [OF B ord, of double "Some (\<lambda>t. None)" True]
  have len: "length [1, 2, 3, 4, 5 :: nat] = 5" by simp
  have bs: "batchSize cfg2 = 2" by (simp add: cfg2_def)
  have ok: "(\<forall>x\<in>set [1, 2, 3, 4, 5 :: nat]. \<exists>r. double x = Inr r) \<and>
            (\<forall>h t. Some (\<lambda>t. None) = Some h \<longrightarrow> h t = (None :: string option))"
    by (auto simp: double_def)
  have res: "map (\<lambda>x. projr (double x)) [1, 2, 3, 4, 5] = [2, 4, 6, 8, 10]"
    by (simp add: double_def)
  from inst ok have "\<exists>trace. processInBatches [1, 2, 3, 4, 5] double cfg2 (Some (\<lambda>t. None)) True
               (reverse_order [1, 2, 3, 4, 5] 2)
               = Some (trace, Inr (map (\<lambda>x. projr (double x)) [1, 2, 3, 4, 5]))"
    by blast
  then have c1: "\<exists>trace. processInBatches [1, 2, 3, 4, 5] double cfg2 (Some (\<lambda>t. None)) True
               (reverse_order [1, 2, 3, 4, 5] 2) = Some (trace, Inr [2, 4, 6, 8, 10])"
    by (simp only: res)
  from inst have "concat (map (batch_slice [1, 2, 3, 4, 5 :: nat] (batchSize cfg2))
      [0..<ceil_div (length [1, 2, 3, 4, 5 :: nat]) (batchSize cfg2)]) = [1, 2, 3, 4, 5]"
    by blast
  then have c2: "concat (map (batch_slice [1, 2, 3, 4, 5 :: nat] 2) [0..<ceil_div 5 2]) = [1, 2, 3, 4, 5]"
    by (simp only: len bs)
  from inst have "[1, 2, 3, 4, 5 :: nat] \<noteq> [] \<longrightarrow>
       length (batch_slice [1, 2, 3, 4, 5 :: nat] (batchSize cfg2)
                 (ceil_div (length [1, 2, 3, 4, 5 :: nat]) (batchSize cfg2) - 1))
         = (if length [1, 2, 3, 4, 5 :: nat] mod batchSize cfg2 = 0 then batchSize cfg2
            else length [1, 2, 3, 4, 5 :: nat] mod batchSize cfg2)"
    by blast
  then have c3: "length (batch_slice [1, 2, 3, 4, 5 :: nat] 2 (ceil_div 5 2 - 1)) = 1"
    by (simp only: len bs) simp
  from B c1 c2 c3 show ?thesis by blast
qed


section \<open>Properties of the embedding client\<close>

lemma validateEmbedding_Inr:
  "validateEmbedding v = Inr w \<longleftrightarrow>
     w = v \<and> length v = EXPECTED_EMBEDDING_DIMENSION \<and> (\<forall>x\<in>set v. isFinite x)"
  by (auto simp: validateEmbedding_def list_ex_iff EXPECTED_EMBEDDING_DIMENSION_def)

lemma validateEmbedding_Inl:
  "(\<exists>r. validateEmbedding v = Inl (OllamaError r)) \<longleftrightarrow>
     length v = 0 \<or> length v \<noteq> EXPECTED_EMBEDDING_DIMENSION \<or> (\<exists>x\<in>set v. \<not> isFinite x)"
  by (auto simp: validateEmbedding_def list_ex_iff EXPECTED_EMBEDDING_DIMENSION_def)

lemma embedAttempt_Inr:
  "embedAttempt fetched = Inr v \<Longrightarrow>
     (\<exists>response. fetched = Resolved response \<and> ok response \<and> body_json response = Resolved v) \<and>
     length v = EXPECTED_EMBEDDING_DIMENSION \<and> (\<forall>x\<in>set v. isFinite x)"
  by (auto simp: embedAttempt_def validateEmbedding_Inr split: promise.splits if_splits)

lemma retry_outcome:
  "\<exists>k \<le> recurs. attempts (retry effect base recurs n slept) = n + k + 1 \<and>
     outcome (retry effect base recurs n slept) = effect (n + k) \<and>
     delays (retry effect base recurs n slept) = slept @ map (exponential base) [n..<n + k] \<and>
     (\<forall>i<k. isl (effect (n + i))) \<and>
     (isl (effect (n + k)) \<longrightarrow> k = recurs)"
proof (induction recurs arbitrary: n slept)
  case 0
  show ?case by simp
next
  case (Suc recurs)
  show ?case
  proof (cases "effect n")
    case (Inr a)
    then show ?thesis by (intro exI [of _ 0]) simp
  next
    case (Inl e)
    from Suc [of "n + 1" "slept @ [exponential base n]"] obtain k where k: "k \<le> recurs"
      "attempts (retry effect base recurs (n + 1) (slept @ [exponential base n])) = n + 1 + k + 1"
      "outcome (retry effect base recurs (n + 1) (slept @ [exponential base n])) = effect (n + 1 + k)"
      "delays (retry effect base recurs (n + 1) (slept @ [exponential base n]))
         = (slept @ [exponential base n]) @ map (exponential base) [n + 1..<n + 1 + k]"
      "\<forall>i<k. isl (effect (n + 1 + i))"
      "isl (effect (n + 1 + k)) \<longrightarrow> k = recurs"
      by blast
    have upt: "[n..<n + Suc k] = n # [n + 1..<n + 1 + k]" by (simp add: upt_conv_Cons)
    have prev: "\<forall>i<Suc k. isl (effect (n + i))"
    proof (intro allI impI)
      fix i assume "i < Suc k"
      then show "isl (effect (n + i))"
        using Inl k(5) by (cases i) auto
    qed
    from k Inl upt prev show ?thesis
      by (intro exI [of _ "Suc k"]) (simp del: upt_Suc)
  qed
qed

lemma embedSingle_outcome:
  "\<exists>k \<le> 3. attempts (embedSingle fetch prompt) = k + 1 \<and>
     outcome (embedSingle fetch prompt) = embedAttempt (fetch k prompt) \<and>
     delays (embedSingle fetch prompt) = map (exponential 100) [0..<k] \<and>
     (\<forall>i<k. isl (embedAttempt (fetch i prompt))) \<and>
     (isl (embedAttempt (fetch k prompt)) \<longrightarrow> k = 3)"
  using retry_outcome [of 3 "\<lambda>n. embedAttempt (fetch n prompt)" 100 0 "[]"]
  by (simp add: embedSingle_def)

text \<open>
  C3, as stated: \<open>embed\<close> fails whenever the service returns a vector of length zero, of a
  length other than 1024, or with a non-finite element. It does not always: the attempt
  that receives such a vector fails, but \<open>embed\<close> retries it; when the service answers the
  first request with a vector of two elements and the second with a valid one, \<open>embed\<close>
  returns the valid vector.
\<close>

theorem embed_succeeds_after_corrupt_vector:
  "short_then_good 0 ''chunk'' = answers [Num 1, Num 2] \<and>
   length [Num 1, Num 2] \<noteq> EXPECTED_EMBEDDING_DIMENSION \<and>
   embedAttempt (short_then_good 0 ''chunk'')
     = Inl (OllamaError ''Invalid embedding: dimension 2 (expected 1024)'') \<and>
   outcome (embedSingle short_then_good ''chunk'') = Inr (replicate 1024 (Num 0))"
proof -
  have 1: "short_then_good 0 ''chunk'' = answers [Num 1, Num 2]"
    by (simp add: short_then_good_def)
  have 2: "length [Num 1, Num 2] \<noteq> EXPECTED_EMBEDDING_DIMENSION"
    by (simp add: EXPECTED_EMBEDDING_DIMENSION_def)
  have 3: "embedAttempt (short_then_good 0 ''chunk'')
     = Inl (OllamaError ''Invalid embedding: dimension 2 (expected 1024)'')"
    by code_simp
  have 4: "outcome (embedSingle short_then_good ''chunk'') = Inr (replicate 1024 (Num 0))"
    by (simp add: embedSingle_def numeral_3_eq_3 embedAttempt_def short_then_good_def answers_def
          validateEmbedding_def EXPECTED_EMBEDDING_DIMENSION_def exponential_def list_ex_iff)
  from 1 2 3 4 show ?thesis by blast
qed

text \<open>
  C3, amended: a vector of length zero, of a length other than the configured dimension
  (1024), or with a non-finite element, fails validation with an \<open>OllamaError\<close>, and so does
  the attempt that received it; when the service answers every attempt with such a vector,
  \<open>embed\<close> fails with an \<open>OllamaError\<close>; and whatever \<open>embed\<close> returns is a vector the service
  sent, of length 1024 and with finite elements only.
\<close>

theorem corrupt_embedding_never_returned:
  "((length v = 0 \<or> length v \<noteq> EXPECTED_EMBEDDING_DIMENSION \<or> (\<exists>x\<in>set v. \<not> isFinite x)) \<longrightarrow>
      (\<exists>r. validateEmbedding v = Inl (OllamaError r)) \<and>
      (\<exists>r. embedAttempt (Resolved \<lparr>ok = True, body_text = t, body_json = Resolved v\<rparr>)
             = Inl (OllamaError r))) \<and>
   ((\<forall>n. \<exists>response u. fetch n prompt = Resolved response \<and> body_json response = Resolved u \<and>
        (length u = 0 \<or> length u \<noteq> EXPECTED_EMBEDDING_DIMENSION \<or> (\<exists>x\<in>set u. \<not> isFinite x))) \<longrightarrow>
      (\<exists>r. outcome (embedSingle fetch prompt) = Inl (OllamaError r))) \<and>
   (outcome (embedSingle fetch prompt) = Inr w \<longrightarrow>
      length w = 1024 \<and> (\<forall>x\<in>set w. isFinite x) \<and>
      (\<exists>n response. fetch n prompt = Resolved response \<and> body_json response = Resolved w))"
proof (intro conjI impI)
  assume bad: "length v = 0 \<or> length v \<noteq> EXPECTED_EMBEDDING_DIMENSION \<or> (\<exists>x\<in>set v. \<not> isFinite x)"
  then show "\<exists>r. validateEmbedding v = Inl (OllamaError r)"
    by (simp only: validateEmbedding_Inl)
  then show "\<exists>r. embedAttempt (Resolved \<lparr>ok = True, body_text = t, body_json = Resolved v\<rparr>)
             = Inl (OllamaError r)"
    by (simp add: embedAttempt_def)
next
  assume all_bad: "\<forall>n. \<exists>response u. fetch n prompt = Resolved response \<and> body_json response = Resolved u \<and>
        (length u = 0 \<or> length u \<noteq> EXPECTED_EMBEDDING_DIMENSION \<or> (\<exists>x\<in>set u. \<not> isFinite x))"
  from embedSingle_outcome [of fetch prompt] obtain k where
    k: "outcome (embedSingle fetch prompt) = embedAttempt (fetch k prompt)" by blast
  from all_bad obtain response u where
    r: "fetch k prompt = Resolved response" "body_json response = Resolved u"
    and bad: "length u = 0 \<or> length u \<noteq> EXPECTED_EMBEDDING_DIMENSION \<or> (\<exists>x\<in>set u. \<not> isFinite x)"
    by blast
  from bad have "\<exists>r. validateEmbedding u = Inl (OllamaError r)"
    by (simp only: validateEmbedding_Inl)
  with r have "\<exists>r. embedAttempt (fetch k prompt) = Inl (OllamaError r)"
    by (auto simp: embedAttempt_def split: promise.splits)
  with k show "\<exists>r. outcome (embedSingle fetch prompt) = Inl (OllamaError r)" by simp
next
  assume ret: "outcome (embedSingle fetch prompt) = Inr w"
  from embedSingle_outcome [of fetch prompt] obtain k where
    "outcome (embedSingle fetch prompt) = embedAttempt (fetch k prompt)" by blast
  with ret have "embedAttempt (fetch k prompt) = Inr w" by simp
  from embedAttempt_Inr [OF this]
  show "length w = 1024" and "\<forall>x\<in>set w. isFinite x"
    and "\<exists>n response. fetch n prompt = Resolved response \<and> body_json response = Resolved w"
    by (auto simp: EXPECTED_EMBEDDING_DIMENSION_def)
qed

lemma empty_then_good_run:
  "embedSingle empty_then_good prompt =
     \<lparr>outcome = Inr (replicate 1024 (Num 0)), attempts = 2, delays = [100]\<rparr>"
  by (simp add: embedSingle_def numeral_3_eq_3 embedAttempt_def empty_then_good_def answers_def
        validateEmbedding_def EXPECTED_EMBEDDING_DIMENSION_def exponential_def list_ex_iff)

theorem corrupt_embedding_never_returned_witness:
  "length ([] :: jsnum list) = 0 \<and>
   (\<exists>r. validateEmbedding [] = Inl (OllamaError r)) \<and>
   (\<exists>r. outcome (embedSingle (\<lambda>n prompt. answers []) ''chunk'') = Inl (OllamaError r)) \<and>
   outcome (embedSingle empty_then_good ''chunk'') = Inr (replicate 1024 (Num 0)) \<and>
   length (replicate 1024 (Num 0)) = 1024"
proof -
  note inst = corrupt_embedding_never_returned
      [of "[]" "Resolved []" "\<lambda>n prompt. answers []" "''chunk''" "[]"]
  have bad: "length ([] :: jsnum list) = 0 \<or> length ([] :: jsnum list) \<noteq> EXPECTED_EMBEDDING_DIMENSION \<or>
      (\<exists>x\<in>set ([] :: jsnum list). \<not> isFinite x)" by simp
  have all_bad: "\<forall>n. \<exists>response u. (\<lambda>n prompt. answers []) n ''chunk'' = Resolved response \<and>
        body_json response = Resolved u \<and>
        (length u = 0 \<or> length u \<noteq> EXPECTED_EMBEDDING_DIMENSION \<or> (\<exists>x\<in>set u. \<not> isFinite x))"
    by (simp add: answers_def)
  from inst bad have c1: "\<exists>r. validateEmbedding [] = Inl (OllamaError r)" by blast
  from inst all_bad have c2:
    "\<exists>r. outcome (embedSingle (\<lambda>n prompt. answers []) ''chunk'') = Inl (OllamaError r)" by blast
  have run: "outcome (embedSingle empty_then_good ''chunk'') = Inr (replicate 1024 (Num 0))"
    by (simp add: empty_then_good_run)
  from corrupt_embedding_never_returned [of "[]" "Resolved []" empty_then_good "''chunk''"
      "replicate 1024 (Num 0)"] run
  have c3: "length (replicate 1024 (Num 0)) = 1024" by blast
  from c1 c2 run c3 show ?thesis by simp
qed

lemma validateEmbedding_empty:
  "validateEmbedding [] = Inl (OllamaError ''Invalid embedding: dimension 0 (expected 1024)'')"
  by code_simp

text \<open>
  C4, as stated: a call whose response fails validation fails immediately, without further
  attempts. It does not: when the service answers the first request with an empty vector
  and the second with a valid one, the first attempt fails validation, a second attempt is
  made after 100 ms, and the call returns the valid vector.
\<close>

theorem validation_failure_is_retried:
  "embedAttempt (empty_then_good 0 ''chunk'')
     = Inl (OllamaError ''Invalid embedding: dimension 0 (expected 1024)'') \<and>
   attempts (embedSingle empty_then_good ''chunk'') = 2 \<and>
   delays (embedSingle empty_then_good ''chunk'') = [100] \<and>
   outcome (embedSingle empty_then_good ''chunk'') = Inr (replicate 1024 (Num 0))"
  by (simp add: empty_then_good_run)
     (simp add: embedAttempt_def empty_then_good_def answers_def validateEmbedding_empty)

text \<open>
  C4, amended: \<open>embed\<close> runs the request, the parsing of the response and the validation of
  the vector as one effect and retries it after every failure, a validation failure like
  any other: attempt \<open>i + 1\<close> is made, \<open>100 * 2 ^ i\<close> ms after attempt \<open>i\<close>, exactly when
  attempts \<open>0, \<dots>, i\<close> all failed and \<open>i < 3\<close>; there are at most 3 retries (4 attempts), and
  the outcome is that of the last attempt made.
\<close>

theorem embedSingle_retries_every_failure:
  "\<exists>k \<le> 3. attempts (embedSingle fetch prompt) = k + 1 \<and>
     outcome (embedSingle fetch prompt) = embedAttempt (fetch k prompt) \<and>
     delays (embedSingle fetch prompt) = map (\<lambda>i. 100 * 2 ^ i) [0..<k] \<and>
     (\<forall>i<k. \<exists>r. embedAttempt (fetch i prompt) = Inl (OllamaError r)) \<and>
     ((\<exists>r. embedAttempt (fetch k prompt) = Inl (OllamaError r)) \<longrightarrow> k = 3)"
proof -
  have fails: "isl x \<longleftrightarrow> (\<exists>r. x = Inl (OllamaError r))" for x :: "OllamaError + jsnum list"
    by (cases x) (auto intro: OllamaError.exhaust)
  have exp: "exponential 100 = (\<lambda>i. 100 * 2 ^ i)"
    by (rule ext) (simp add: exponential_def)
  from embedSingle_outcome [of fetch prompt] show ?thesis
    unfolding fails exp .
qed

theorem embedSingle_retries_every_failure_witness:
  "attempts (embedSingle (\<lambda>n prompt. answers []) ''chunk'') = 4 \<and>
   delays (embedSingle (\<lambda>n prompt. answers []) ''chunk'') = [100, 200, 400] \<and>
   (\<exists>r. outcome (embedSingle (\<lambda>n prompt. answers []) ''chunk'') = Inl (OllamaError r)) \<and>
   (\<exists>r. validateEmbedding [] = Inl (OllamaError r))"
proof -
  have att: "embedAttempt ((\<lambda>n prompt. answers []) k ''chunk'') = validateEmbedding []" for k :: nat
    by (simp add: embedAttempt_def answers_def)
  have bad: "\<exists>r. validateEmbedding [] = Inl (OllamaError r)"
    by (simp add: validateEmbedding_def)
  from embedSingle_retries_every_failure [of "\<lambda>n prompt. answers []" "''chunk''"]
  obtain k where k: "k \<le> 3"
    "attempts (embedSingle (\<lambda>n prompt. answers []) ''chunk'') = k + 1"
    "outcome (embedSingle (\<lambda>n prompt. answers []) ''chunk'') = validateEmbedding []"
    "delays (embedSingle (\<lambda>n prompt. answers []) ''chunk'') = map (\<lambda>i. 100 * 2 ^ i) [0..<k]"
    "(\<exists>r. validateEmbedding [] = Inl (OllamaError r)) \<longrightarrow> k = 3"
    unfolding att by blast
  from k(5) bad have k3: "k = 3" by blast
  have "map (\<lambda>i. 100 * 2 ^ i) [0..<3] = [100, 200, 400 :: nat]"
    by (simp add: numeral_3_eq_3)
  with k k3 bad show ?thesis by simp
qed
section \<open>Properties of the deduplication of proposed concepts\<close>

lemma startsWith_iff: "startsWith s p \<longleftrightarrow> (\<exists>post. s = p @ post)"
  by (induction s p rule: startsWith.induct) auto

lemma includes'_iff: "includes' s sub \<longleftrightarrow> (\<exists>pre post. s = pre @ sub @ post)"
proof (induction s)
  case Nil
  show ?case by auto
next
  case (Cons c cs)
  show ?case
  proof
    assume "includes' (c # cs) sub"
    then consider "startsWith (c # cs) sub" | "includes' cs sub" by auto
    then show "\<exists>pre post. c # cs = pre @ sub @ post"
    proof cases
      case 1
      then obtain post where "c # cs = sub @ post" by (auto simp: startsWith_iff)
      then have "c # cs = [] @ sub @ post" by simp
      then show ?thesis by blast
    next
      case 2
      with Cons obtain pre post where "cs = pre @ sub @ post" by blast
      then have "c # cs = (c # pre) @ sub @ post" by simp
      then show ?thesis by blast
    qed
  next
    assume "\<exists>pre post. c # cs = pre @ sub @ post"
    then obtain pre post where eq: "c # cs = pre @ sub @ post" by blast
    show "includes' (c # cs) sub"
    proof (cases pre)
      case Nil
      with eq have "startsWith (c # cs) sub" by (auto simp: startsWith_iff)
      then show ?thesis by simp
    next
      case (Cons a pre')
      with eq have "cs = pre' @ sub @ post" by simp
      with Cons.IH have "includes' cs sub" by blast
      then show ?thesis by simp
    qed
  qed
qed

lemma includes'_single: "includes' s [c] \<longleftrightarrow> c \<in> set s"
  by (induction s) auto

lemma toUpperCase_append [simp]: "toUpperCase (a @ b) = toUpperCase a @ toUpperCase b"
  by (simp add: toUpperCase_def)

lemma trim_part: "\<exists>a b. s = a @ trim s @ b"
proof -
  have 1: "s = takeWhile is_space s @ dropWhile is_space s" by simp
  let ?d = "dropWhile is_space s"
  have "rev ?d = takeWhile is_space (rev ?d) @ dropWhile is_space (rev ?d)" by simp
  then have "rev (rev ?d) = rev (takeWhile is_space (rev ?d) @ dropWhile is_space (rev ?d))"
    by (rule arg_cong)
  then have "?d = rev (dropWhile is_space (rev ?d)) @ rev (takeWhile is_space (rev ?d))"
    by (simp only: rev_rev_ident rev_append)
  then have "?d = trim s @ rev (takeWhile is_space (rev ?d))"
    by (simp only: trim_def)
  with 1 have "s = takeWhile is_space s @ trim s @ rev (takeWhile is_space (rev ?d))" by simp
  then show ?thesis by blast
qed

lemma trim_keeps:
  assumes "s = pre @ mid @ post" and "mid \<noteq> []" and "\<forall>c\<in>set mid. \<not> is_space c"
  shows "\<exists>pre' post'. trim s = pre' @ mid @ post'"
proof -
  from assms(2) obtain m ms where mid: "mid = m # ms" by (cases mid) auto
  with assms(3) have m: "\<not> is_space m" by simp
  from assms(2) obtain ls l where midr: "mid = ls @ [l]" by (cases mid rule: rev_cases) auto
  with assms(3) have l: "\<not> is_space l" by simp
  have "dropWhile is_space s = dropWhile is_space pre @ mid @ post"
    unfolding assms(1) mid using m by (simp add: dropWhile_append3)
  then have "rev (dropWhile is_space s) = rev post @ l # rev ls @ rev (dropWhile is_space pre)"
    by (simp add: midr)
  then have "dropWhile is_space (rev (dropWhile is_space s)) =
      dropWhile is_space (rev post) @ l # rev ls @ rev (dropWhile is_space pre)"
    using l by (simp add: dropWhile_append3)
  then have "trim s = dropWhile is_space pre @ mid @ rev (dropWhile is_space (rev post))"
    by (simp add: trim_def midr)
  then show ?thesis by blast
qed

lemma toUpperCase_char_space: "is_space c \<Longrightarrow> toUpperCase_char c = c"
proof -
  assume "is_space c"
  then have "(of_char c :: nat) \<le> 32" by (auto simp: is_space_def)
  then show ?thesis by (simp add: toUpperCase_char_def Let_def)
qed

lemma DUPLICATE_no_space: "c \<in> set ''DUPLICATE'' \<Longrightarrow> \<not> is_space c"
proof -
  assume "c \<in> set ''DUPLICATE''"
  then have "(of_char c :: nat) \<in> {65, 67, 68, 69, 73, 76, 80, 84, 85}" by auto
  then show ?thesis by (auto simp: is_space_def)
qed

lemma upper_no_space:
  assumes "toUpperCase mid = d" and "d \<noteq> []" and "\<forall>c\<in>set d. \<not> is_space c"
  shows "mid \<noteq> []" and "\<forall>c\<in>set mid. \<not> is_space c"
proof -
  from assms(1,2) show "mid \<noteq> []" by (auto simp: toUpperCase_def)
  show "\<forall>c\<in>set mid. \<not> is_space c"
  proof
    fix c assume c: "c \<in> set mid"
    then have "toUpperCase_char c \<in> set (toUpperCase mid)" by (simp add: toUpperCase_def)
    then have in_d: "toUpperCase_char c \<in> set d" by (simp only: assms(1))
    show "\<not> is_space c"
    proof
      assume sp: "is_space c"
      then have "toUpperCase_char c = c" by (rule toUpperCase_char_space)
      with in_d have "c \<in> set d" by simp
      with sp assms(3) show False by blast
    qed
  qed
qed

lemma map_eq_appendD:
  "map f xs = ys @ zs \<Longrightarrow> \<exists>us vs. xs = us @ vs \<and> map f us = ys \<and> map f vs = zs"
  by (auto simp: map_eq_append_conv)

lemma answer_contains:
  assumes d: "d \<noteq> []" "\<forall>c\<in>set d. \<not> is_space c"
  shows "includes' (toUpperCase (trim answer)) d \<longleftrightarrow>
     (\<exists>pre mid post. answer = pre @ mid @ post \<and> toUpperCase mid = d)"
proof
  assume "includes' (toUpperCase (trim answer)) d"
  then obtain p q where "toUpperCase (trim answer) = p @ d @ q"
    unfolding includes'_iff by blast
  then have "map toUpperCase_char (trim answer) = p @ (d @ q)"
    by (simp only: toUpperCase_def)
  from map_eq_appendD [OF this] obtain pre rest where t: "trim answer = pre @ rest" and
    "map toUpperCase_char rest = d @ q"
    by blast
  from map_eq_appendD [OF this(2)] obtain mid post where r: "rest = mid @ post"
    and m: "map toUpperCase_char mid = d"
    by blast
  from trim_part [of answer] obtain a b where "answer = a @ trim answer @ b" by blast
  with t r have "answer = (a @ pre) @ mid @ (post @ b)" by simp
  with m show "\<exists>pre mid post. answer = pre @ mid @ post \<and> toUpperCase mid = d"
    unfolding toUpperCase_def by blast
next
  assume "\<exists>pre mid post. answer = pre @ mid @ post \<and> toUpperCase mid = d"
  then obtain pre mid post where a: "answer = pre @ mid @ post" and m: "toUpperCase mid = d"
    by blast
  from trim_keeps [OF a upper_no_space [OF m d]] obtain pre' post' where
    "trim answer = pre' @ mid @ post'" by blast
  then have "toUpperCase (trim answer) = toUpperCase pre' @ toUpperCase mid @ toUpperCase post'"
    by (simp only: toUpperCase_append)
  then have "toUpperCase (trim answer) = toUpperCase pre' @ d @ toUpperCase post'"
    by (simp only: m)
  then show "includes' (toUpperCase (trim answer)) d"
    unfolding includes'_iff by blast
qed

lemma answer_contains_DUPLICATE:
  "includes' (toUpperCase (trim answer)) ''DUPLICATE'' \<longleftrightarrow>
     (\<exists>pre mid post. answer = pre @ mid @ post \<and> toUpperCase mid = ''DUPLICATE'')"
proof (rule answer_contains)
  show "''DUPLICATE'' \<noteq> []" by simp
  show "\<forall>c\<in>set ''DUPLICATE''. \<not> is_space c" using DUPLICATE_no_space by blast
qed

lemma llmJudgeDuplicate_reply:
  "fst (llmJudgeDuplicate S proposed existing w) =
     (case judge_reply S (judge_prompt proposed existing) w of
        None \<Rightarrow> \<lparr>isDuplicate = False, available = False\<rparr>
      | Some answer \<Rightarrow>
          \<lparr>isDuplicate = includes' (toUpperCase (trim answer)) ''DUPLICATE'', available = True\<rparr>)"
  unfolding llmJudgeDuplicate_def judge_reply_def Let_def
  by (simp split: prod.splits promise.splits option.splits)

lemma unavailable_not_duplicate:
  "\<not> available (fst (llmJudgeDuplicate S proposed existing w)) \<Longrightarrow>
     \<not> isDuplicate (fst (llmJudgeDuplicate S proposed existing w))"
  unfolding llmJudgeDuplicate_reply by (simp split: option.splits)

lemma isDuplicate_iff:
  "isDuplicate (fst (llmJudgeDuplicate S proposed existing w)) \<longleftrightarrow>
     (\<exists>answer pre mid post. judge_reply S (judge_prompt proposed existing) w = Some answer \<and>
        answer = pre @ mid @ post \<and> toUpperCase mid = ''DUPLICATE'')"
proof (cases "judge_reply S (judge_prompt proposed existing) w")
  case None
  then show ?thesis unfolding llmJudgeDuplicate_reply by simp
next
  case (Some answer)
  have "isDuplicate (fst (llmJudgeDuplicate S proposed existing w)) \<longleftrightarrow>
      includes' (toUpperCase (trim answer)) ''DUPLICATE''"
    unfolding llmJudgeDuplicate_reply Some by simp
  also have "\<dots> \<longleftrightarrow> (\<exists>pre mid post. answer = pre @ mid @ post \<and> toUpperCase mid = ''DUPLICATE'')"
    by (rule answer_contains_DUPLICATE)
  finally show ?thesis using Some by simp
qed

lemma rebuilt_concept [simp]:
  "\<lparr>id' = id' p, prefLabel = prefLabel p, altLabels = altLabels p, definition' = definition' p\<rparr>
     = (p :: Concept)"
  by simp

lemma accept_novel_success:
  assumes "addConcept S proposal w = (Inr (), w1)"
    and "storeConceptEmbedding S (id' proposal) embedding w1 = (Inr (), w2)"
  shows "accept_novel S proposal embedding (a, r, calls, w) =
           Inr (a + 1, r, calls @ [Added proposal, Stored proposal, CountedAccepted proposal], w2)"
  using assms by (simp add: accept_novel_def)

lemma accept_novel_Inl:
  "accept_novel S proposal embedding (a, r, calls, w) = Inl (e, calls', w') \<Longrightarrow>
     (\<exists>t. e = TaxonomyFailure t) \<and>
     (\<exists>new. calls' = calls @ new \<and> (\<forall>c\<in>set new. proposal_of c = proposal))"
  by (auto simp: accept_novel_def split: prod.splits sum.splits)

lemma accept_novel_Inr:
  "accept_novel S proposal embedding (a, r, calls, w) = Inr (a', r', calls', w') \<Longrightarrow>
     a' = a + 1 \<and> r' = r \<and>
     calls' = calls @ [Added proposal, Stored proposal, CountedAccepted proposal]"
  by (auto simp: accept_novel_def split: prod.splits sum.splits)

lemma accept_one_judged:
  assumes emb: "embed S (proposalText proposal) w = (Inr embedding, w1)"
    and sim: "findSimilarConcepts S embedding 0.75 w1 = (Inr similar, w2)"
    and cand: "similar \<noteq> []"
    and judge: "llmJudgeDuplicate S proposal (similar ! 0) w2 = (judgeResult, w3)"
  shows "accept_one S proposal (a, r, calls, w) =
     (if isDuplicate judgeResult then
        Inr (a, r + 1,
             calls @ [Embedded proposal, Retrieved proposal, Judged proposal (similar ! 0),
                      CountedRejected proposal], w3)
      else
        accept_novel S proposal embedding
          (a, r, calls @ [Embedded proposal, Retrieved proposal, Judged proposal (similar ! 0)], w3))"
  using assms by (simp add: accept_one_def)

lemma accept_one_unjudged:
  assumes emb: "embed S (proposalText proposal) w = (Inr embedding, w1)"
    and sim: "findSimilarConcepts S embedding 0.75 w1 = (Inr [], w2)"
  shows "accept_one S proposal (a, r, calls, w) =
     accept_novel S proposal embedding (a, r, calls @ [Embedded proposal, Retrieved proposal], w2)"
  using assms by (simp add: accept_one_def)

text \<open>
  C5: when a proposal has a candidate and the judge cannot be consulted (its result has
  \<open>available = False\<close>), the result is not a duplicate and the loop body goes on to persist
  the proposal: it is added, its embedding is stored and it is counted as accepted when
  the store accepts both writes, and the only failure the step can end with is one of the
  store.
\<close>

theorem judge_unavailable_fail_open:
  assumes emb: "embed S (proposalText proposal) w = (Inr embedding, w1)"
    and sim: "findSimilarConcepts S embedding 0.75 w1 = (Inr similar, w2)"
    and cand: "similar \<noteq> []"
    and judge: "llmJudgeDuplicate S proposal (similar ! 0) w2 = (judgeResult, w3)"
    and unavailable: "\<not> available judgeResult"
  shows
   "\<not> isDuplicate judgeResult \<and>
    accept_one S proposal (a, r, calls, w) =
      accept_novel S proposal embedding
        (a, r, calls @ [Embedded proposal, Retrieved proposal, Judged proposal (similar ! 0)], w3) \<and>
    (\<forall>w4 w5. addConcept S proposal w3 = (Inr (), w4) \<and>
              storeConceptEmbedding S (id' proposal) embedding w4 = (Inr (), w5) \<longrightarrow>
       accept_one S proposal (a, r, calls, w) =
         Inr (a + 1, r,
              calls @ [Embedded proposal, Retrieved proposal, Judged proposal (similar ! 0),
                       Added proposal, Stored proposal, CountedAccepted proposal], w5) \<and>
       autoAcceptProposals S [proposal] w =
         (Inr \<lparr>accepted = 1, rejected = 0\<rparr>,
          [Embedded proposal, Retrieved proposal, Judged proposal (similar ! 0),
           Added proposal, Stored proposal, CountedAccepted proposal], w5)) \<and>
    (\<forall>e calls' w'. accept_one S proposal (a, r, calls, w) = Inl (e, calls', w') \<longrightarrow>
       (\<exists>t. e = TaxonomyFailure t))"
proof -
  from judge have j: "fst (llmJudgeDuplicate S proposal (similar ! 0) w2) = judgeResult" by simp
  from unavailable have nd: "\<not> isDuplicate judgeResult"
    using unavailable_not_duplicate [of S proposal "similar ! 0" w2] by (simp add: j)
  have step: "accept_one S proposal (a, r, calls, w) =
      accept_novel S proposal embedding
        (a, r, calls @ [Embedded proposal, Retrieved proposal, Judged proposal (similar ! 0)], w3)"
    for a r calls
    using accept_one_judged [OF emb sim cand judge] nd by simp
  have persisted: "accept_one S proposal (a, r, calls, w) =
         Inr (a + 1, r,
              calls @ [Embedded proposal, Retrieved proposal, Judged proposal (similar ! 0),
                       Added proposal, Stored proposal, CountedAccepted proposal], w5)"
    if "addConcept S proposal w3 = (Inr (), w4)"
      and "storeConceptEmbedding S (id' proposal) embedding w4 = (Inr (), w5)" for w4 w5 a r calls
    unfolding step using accept_novel_success [OF that] by simp
  have run: "autoAcceptProposals S [proposal] w =
         (Inr \<lparr>accepted = 1, rejected = 0\<rparr>,
          [Embedded proposal, Retrieved proposal, Judged proposal (similar ! 0),
           Added proposal, Stored proposal, CountedAccepted proposal], w5)"
    if "addConcept S proposal w3 = (Inr (), w4)"
      and "storeConceptEmbedding S (id' proposal) embedding w4 = (Inr (), w5)" for w4 w5
    using persisted [OF that, of 0 0 "[]"] by (simp add: autoAcceptProposals_def)
  have failure: "\<exists>t. e = TaxonomyFailure t"
    if "accept_one S proposal (a, r, calls, w) = Inl (e, calls', w')" for e calls' w'
  proof -
    from that have "accept_novel S proposal embedding
        (a, r, calls @ [Embedded proposal, Retrieved proposal, Judged proposal (similar ! 0)], w3)
        = Inl (e, calls', w')"
      by (simp only: step)
    from accept_novel_Inl [OF this] show ?thesis by simp
  qed
  from nd step persisted run failure show ?thesis by blast
qed

text \<open>
  C6: for a proposal that is judged (it has a candidate), the result is a duplicate exactly
  when the judge gave an answer and a part of the answer is the word DUPLICATE in upper or
  lower case letters; then the proposal is counted as rejected and nothing is persisted.
  With any other answer, and without an answer, the loop body goes on to persist the
  proposal, which is counted as accepted when the store accepts both writes.
\<close>

theorem reject_only_on_DUPLICATE:
  assumes emb: "embed S (proposalText proposal) w = (Inr embedding, w1)"
    and sim: "findSimilarConcepts S embedding 0.75 w1 = (Inr similar, w2)"
    and cand: "similar \<noteq> []"
    and judge: "llmJudgeDuplicate S proposal (similar ! 0) w2 = (judgeResult, w3)"
  shows
   "(isDuplicate judgeResult \<longleftrightarrow>
       (\<exists>answer pre mid post.
           judge_reply S (judge_prompt proposal (similar ! 0)) w2 = Some answer \<and>
           answer = pre @ mid @ post \<and> toUpperCase mid = ''DUPLICATE'')) \<and>
    (isDuplicate judgeResult \<longrightarrow>
       accept_one S proposal (a, r, calls, w) =
         Inr (a, r + 1,
              calls @ [Embedded proposal, Retrieved proposal, Judged proposal (similar ! 0),
                       CountedRejected proposal], w3)) \<and>
    (\<not> isDuplicate judgeResult \<longrightarrow>
       accept_one S proposal (a, r, calls, w) =
         accept_novel S proposal embedding
           (a, r, calls @ [Embedded proposal, Retrieved proposal, Judged proposal (similar ! 0)], w3) \<and>
       (\<forall>w4 w5. addConcept S proposal w3 = (Inr (), w4) \<and>
                 storeConceptEmbedding S (id' proposal) embedding w4 = (Inr (), w5) \<longrightarrow>
          accept_one S proposal (a, r, calls, w) =
            Inr (a + 1, r,
                 calls @ [Embedded proposal, Retrieved proposal, Judged proposal (similar ! 0),
                          Added proposal, Stored proposal, CountedAccepted proposal], w5)))"
proof -
  from judge have j: "fst (llmJudgeDuplicate S proposal (similar ! 0) w2) = judgeResult" by simp
  have dup: "isDuplicate judgeResult \<longleftrightarrow>
       (\<exists>answer pre mid post.
           judge_reply S (judge_prompt proposal (similar ! 0)) w2 = Some answer \<and>
           answer = pre @ mid @ post \<and> toUpperCase mid = ''DUPLICATE'')"
    using isDuplicate_iff [of S proposal "similar ! 0" w2] by (simp only: j)
  note step = accept_one_judged [OF emb sim cand judge, of a r calls]
  have rej: "accept_one S proposal (a, r, calls, w) =
         Inr (a, r + 1,
              calls @ [Embedded proposal, Retrieved proposal, Judged proposal (similar ! 0),
                       CountedRejected proposal], w3)" if "isDuplicate judgeResult"
    using step that by simp
  have acc: "accept_one S proposal (a, r, calls, w) =
         accept_novel S proposal embedding
           (a, r, calls @ [Embedded proposal, Retrieved proposal, Judged proposal (similar ! 0)], w3)"
    if "\<not> isDuplicate judgeResult"
    using step that by simp
  have persisted: "accept_one S proposal (a, r, calls, w) =
         Inr (a + 1, r,
              calls @ [Embedded proposal, Retrieved proposal, Judged proposal (similar ! 0),
                       Added proposal, Stored proposal, CountedAccepted proposal], w5)"
    if "\<not> isDuplicate judgeResult" "addConcept S proposal w3 = (Inr (), w4)"
      and "storeConceptEmbedding S (id' proposal) embedding w4 = (Inr (), w5)" for w4 w5
    unfolding acc [OF that(1)] using accept_novel_success [OF that(2,3)] by simp
  from dup rej acc persisted show ?thesis by blast
qed

lemma judge_unreachable:
  "llmJudgeDuplicate (demo_services (Rejected ''ECONNREFUSED'')) machine_learning ml [ml]
     = (\<lparr>isDuplicate = False, available = False\<rparr>, [ml])"
  by (simp add: llmJudgeDuplicate_def demo_services_def)

lemma judge_says_Duplicate:
  "llmJudgeDuplicate (demo_services (judge_says ''Duplicate.'')) machine_learning ml [ml]
     = (\<lparr>isDuplicate = True, available = True\<rparr>, [ml])"
  by code_simp

lemma judge_says_distinct:
  "llmJudgeDuplicate (demo_services (judge_says ''They are distinct.'')) machine_learning ml [ml]
     = (\<lparr>isDuplicate = False, available = True\<rparr>, [ml])"
  by code_simp

theorem judge_unavailable_fail_open_witness:
  "llmJudgeDuplicate (demo_services (Rejected ''ECONNREFUSED'')) machine_learning ml [ml]
     = (\<lparr>isDuplicate = False, available = False\<rparr>, [ml]) \<and>
   autoAcceptProposals (demo_services (Rejected ''ECONNREFUSED'')) [machine_learning] [ml] =
     (Inr \<lparr>accepted = 1, rejected = 0\<rparr>,
      [Embedded machine_learning, Retrieved machine_learning, Judged machine_learning ml,
       Added machine_learning, Stored machine_learning, CountedAccepted machine_learning],
      [ml, machine_learning])"
proof -
  let ?S = "demo_services (Rejected ''ECONNREFUSED'')"
  have emb: "embed ?S (proposalText machine_learning) [ml] = (Inr [Num 1], [ml])"
    by (simp add: demo_services_def)
  have sim: "findSimilarConcepts ?S [Num 1] 0.75 [ml] = (Inr [ml], [ml])"
    by (simp add: demo_services_def)
  have cand: "[ml] \<noteq> []" by simp
  have judge: "llmJudgeDuplicate ?S machine_learning ([ml] ! 0) [ml]
      = (\<lparr>isDuplicate = False, available = False\<rparr>, [ml])"
    by (simp add: judge_unreachable)
  have un: "\<not> available \<lparr>isDuplicate = False, available = False\<rparr>" by simp
  have store: "addConcept ?S machine_learning [ml] = (Inr (), [ml, machine_learning]) \<and>
      storeConceptEmbedding ?S (id' machine_learning) [Num 1] [ml, machine_learning]
        = (Inr (), [ml, machine_learning])"
    by (simp add: demo_services_def)
  from judge_unavailable_fail_open [OF emb sim cand judge un, of 0 0 "[]"] store
  have "autoAcceptProposals ?S [machine_learning] [ml] =
     (Inr \<lparr>accepted = 1, rejected = 0\<rparr>,
      [Embedded machine_learning, Retrieved machine_learning, Judged machine_learning ([ml] ! 0),
       Added machine_learning, Stored machine_learning, CountedAccepted machine_learning],
      [ml, machine_learning])"
    by blast
  with judge_unreachable show ?thesis by simp
qed

theorem reject_only_on_DUPLICATE_witness:
  "accept_one (demo_services (judge_says ''Duplicate.'')) machine_learning (0, 0, [], [ml]) =
     Inr (0, 1,
          [Embedded machine_learning, Retrieved machine_learning, Judged machine_learning ml,
           CountedRejected machine_learning], [ml]) \<and>
   accept_one (demo_services (judge_says ''They are distinct.'')) machine_learning (0, 0, [], [ml]) =
     Inr (1, 0,
          [Embedded machine_learning, Retrieved machine_learning, Judged machine_learning ml,
           Added machine_learning, Stored machine_learning, CountedAccepted machine_learning],
          [ml, machine_learning])"
proof -
  let ?S = "demo_services (judge_says ''Duplicate.'')"
  let ?D = "demo_services (judge_says ''They are distinct.'')"
  have emb: "embed ?S (proposalText machine_learning) [ml] = (Inr [Num 1], [ml])"
    "embed ?D (proposalText machine_learning) [ml] = (Inr [Num 1], [ml])"
    by (simp_all add: demo_services_def)
  have sim: "findSimilarConcepts ?S [Num 1] 0.75 [ml] = (Inr [ml], [ml])"
    "findSimilarConcepts ?D [Num 1] 0.75 [ml] = (Inr [ml], [ml])"
    by (simp_all add: demo_services_def)
  have cand: "[ml] \<noteq> []" by simp
  have judge: "llmJudgeDuplicate ?S machine_learning ([ml] ! 0) [ml]
      = (\<lparr>isDuplicate = True, available = True\<rparr>, [ml])"
    "llmJudgeDuplicate ?D machine_learning ([ml] ! 0) [ml]
      = (\<lparr>isDuplicate = False, available = True\<rparr>, [ml])"
    by (simp_all add: judge_says_Duplicate judge_says_distinct)
  have yes: "isDuplicate \<lparr>isDuplicate = True, available = True\<rparr>"
    and no: "\<not> isDuplicate \<lparr>isDuplicate = False, available = True\<rparr>" by simp_all
  have store: "addConcept ?D machine_learning [ml] = (Inr (), [ml, machine_learning]) \<and>
      storeConceptEmbedding ?D (id' machine_learning) [Num 1] [ml, machine_learning]
        = (Inr (), [ml, machine_learning])"
    by (simp add: demo_services_def)
  from reject_only_on_DUPLICATE [OF emb(1) sim(1) cand judge(1), of 0 0 "[]"] yes
  have 1: "accept_one ?S machine_learning (0, 0, [], [ml]) =
     Inr (0, 0 + 1,
          [] @ [Embedded machine_learning, Retrieved machine_learning, Judged machine_learning ([ml] ! 0),
           CountedRejected machine_learning], [ml])"
    by blast
  from reject_only_on_DUPLICATE [OF emb(2) sim(2) cand judge(2), of 0 0 "[]"] no store
  have 2: "accept_one ?D machine_learning (0, 0, [], [ml]) =
     Inr (0 + 1, 0,
          [] @ [Embedded machine_learning, Retrieved machine_learning, Judged machine_learning ([ml] ! 0),
           Added machine_learning, Stored machine_learning, CountedAccepted machine_learning],
          [ml, machine_learning])"
    by blast
  from 1 2 show ?thesis by simp
qed

lemma log_append [simp]:
  "added (xs @ ys) = added xs @ added ys"
  "stored (xs @ ys) = stored xs @ stored ys"
  "counted_accepted (xs @ ys) = counted_accepted xs @ counted_accepted ys"
  "counted_rejected (xs @ ys) = counted_rejected xs @ counted_rejected ys"
  by (simp_all add: added_def stored_def counted_accepted_def counted_rejected_def)

lemma log_Nil [simp]:
  "added [] = []" "stored [] = []" "counted_accepted [] = []" "counted_rejected [] = []"
  by (simp_all add: added_def stored_def counted_accepted_def counted_rejected_def)

lemma log_Cons [simp]:
  "added (c # cs) = (case c of Added p \<Rightarrow> [p] | _ \<Rightarrow> []) @ added cs"
  "stored (c # cs) = (case c of Stored p \<Rightarrow> [p] | _ \<Rightarrow> []) @ stored cs"
  "counted_accepted (c # cs) = (case c of CountedAccepted p \<Rightarrow> [p] | _ \<Rightarrow> []) @ counted_accepted cs"
  "counted_rejected (c # cs) = (case c of CountedRejected p \<Rightarrow> [p] | _ \<Rightarrow> []) @ counted_rejected cs"
  by (simp_all add: added_def stored_def counted_accepted_def counted_rejected_def)

text \<open>What one pass through the loop body adds to the log and to the counters.\<close>

lemma accept_one_Inr:
  assumes "accept_one S p (a, r, calls, w) = Inr (a', r', calls', w')"
  shows "\<exists>new. calls' = calls @ new \<and> (\<forall>c\<in>set new. proposal_of c = p) \<and>
     ((a' = a + 1 \<and> r' = r \<and> added new = [p] \<and> stored new = [p] \<and>
         counted_accepted new = [p] \<and> counted_rejected new = []) \<or>
      (a' = a \<and> r' = r + 1 \<and> added new = [] \<and> stored new = [] \<and>
         counted_accepted new = [] \<and> counted_rejected new = [p]))"
proof -
  obtain eo w1 where emb: "embed S (proposalText p) w = (eo, w1)" by (cases "embed S (proposalText p) w")
  with assms obtain embedding where eo: "eo = Inr embedding"
    by (cases eo) (auto simp: accept_one_def)
  obtain so w2 where sim: "findSimilarConcepts S embedding 0.75 w1 = (so, w2)"
    by (cases "findSimilarConcepts S embedding 0.75 w1")
  with assms emb eo obtain similar where so: "so = Inr similar"
    by (cases so) (auto simp: accept_one_def)
  show ?thesis
  proof (cases "similar = []")
    case True
    from accept_one_unjudged [OF emb [unfolded eo] sim [unfolded so True], of a r calls] assms
    have "accept_novel S p embedding (a, r, calls @ [Embedded p, Retrieved p], w2)
            = Inr (a', r', calls', w')" by simp
    from accept_novel_Inr [OF this] show ?thesis
      by (intro exI [of _ "[Embedded p, Retrieved p, Added p, Stored p, CountedAccepted p]"]) simp
  next
    case False
    obtain j w3 where judge: "llmJudgeDuplicate S p (similar ! 0) w2 = (j, w3)"
      by (cases "llmJudgeDuplicate S p (similar ! 0) w2")
    note step = accept_one_judged [OF emb [unfolded eo] sim [unfolded so] False judge, of a r calls]
    show ?thesis
    proof (cases "isDuplicate j")
      case True
      with step assms show ?thesis
        by (intro exI [of _ "[Embedded p, Retrieved p, Judged p (similar ! 0), CountedRejected p]"])
           simp
    next
      case False
      with step assms have "accept_novel S p embedding
          (a, r, calls @ [Embedded p, Retrieved p, Judged p (similar ! 0)], w3)
            = Inr (a', r', calls', w')" by simp
      from accept_novel_Inr [OF this] show ?thesis
        by (intro exI [of _ "[Embedded p, Retrieved p, Judged p (similar ! 0),
                              Added p, Stored p, CountedAccepted p]"]) simp
    qed
  qed
qed

lemma accept_one_Inl:
  assumes "accept_one S p (a, r, calls, w) = Inl (e, calls', w')"
  shows "\<exists>new. calls' = calls @ new \<and> (\<forall>c\<in>set new. proposal_of c = p)"
proof -
  obtain eo w1 where emb: "embed S (proposalText p) w = (eo, w1)" by (cases "embed S (proposalText p) w")
  show ?thesis
  proof (cases eo)
    case (Inl oe)
    with assms emb show ?thesis
      by (intro exI [of _ "[Embedded p]"]) (simp add: accept_one_def)
  next
    case (Inr embedding)
    note eo = this
    obtain so w2 where sim: "findSimilarConcepts S embedding 0.75 w1 = (so, w2)"
      by (cases "findSimilarConcepts S embedding 0.75 w1")
    show ?thesis
    proof (cases so)
      case (Inl te)
      with assms emb eo sim show ?thesis
        by (intro exI [of _ "[Embedded p, Retrieved p]"]) (simp add: accept_one_def)
    next
      case (Inr similar)
      note so = this
      show ?thesis
      proof (cases "similar = []")
        case True
        from accept_one_unjudged [OF emb [unfolded eo] sim [unfolded so True], of a r calls] assms
        have "accept_novel S p embedding (a, r, calls @ [Embedded p, Retrieved p], w2)
                = Inl (e, calls', w')" by simp
        from accept_novel_Inl [OF this] obtain new where
          "calls' = (calls @ [Embedded p, Retrieved p]) @ new" "\<forall>c\<in>set new. proposal_of c = p"
          by blast
        then show ?thesis
          by (intro exI [of _ "[Embedded p, Retrieved p] @ new"]) simp
      next
        case False
        obtain j w3 where judge: "llmJudgeDuplicate S p (similar ! 0) w2 = (j, w3)"
          by (cases "llmJudgeDuplicate S p (similar ! 0) w2")
        note step = accept_one_judged [OF emb [unfolded eo] sim [unfolded so] False judge, of a r calls]
        from step assms have nd: "\<not> isDuplicate j" by (cases "isDuplicate j") simp_all
        with step assms have "accept_novel S p embedding
            (a, r, calls @ [Embedded p, Retrieved p, Judged p (similar ! 0)], w3)
              = Inl (e, calls', w')" by simp
        from accept_novel_Inl [OF this] obtain new where
          "calls' = (calls @ [Embedded p, Retrieved p, Judged p (similar ! 0)]) @ new"
          "\<forall>c\<in>set new. proposal_of c = p"
          by blast
        then show ?thesis
          by (intro exI [of _ "[Embedded p, Retrieved p, Judged p (similar ! 0)] @ new"]) simp
      qed
    qed
  qed
qed

lemma accept_loop_Inr:
  "accept_loop S ps (a, r, calls, w) = Inr (a', r', calls', w') \<Longrightarrow>
     \<exists>new. calls' = calls @ new \<and> (\<forall>c\<in>set new. proposal_of c \<in> set ps) \<and>
       a' = a + length (counted_accepted new) \<and> r' = r + length (counted_rejected new) \<and>
       added new = counted_accepted new \<and> stored new = counted_accepted new \<and>
       mset (counted_accepted new) + mset (counted_rejected new) = mset ps"
proof (induction ps arbitrary: a r calls w)
  case Nil
  then show ?case by simp
next
  case (Cons p ps)
  from Cons.prems obtain a1 r1 calls1 w1 where
    one: "accept_one S p (a, r, calls, w) = Inr (a1, r1, calls1, w1)"
    and rest: "accept_loop S ps (a1, r1, calls1, w1) = Inr (a', r', calls', w')"
    by (auto split: sum.splits)
  from accept_one_Inr [OF one] obtain n1 where n1: "calls1 = calls @ n1"
    "\<forall>c\<in>set n1. proposal_of c = p"
    "(a1 = a + 1 \<and> r1 = r \<and> added n1 = [p] \<and> stored n1 = [p] \<and>
         counted_accepted n1 = [p] \<and> counted_rejected n1 = []) \<or>
      (a1 = a \<and> r1 = r + 1 \<and> added n1 = [] \<and> stored n1 = [] \<and>
         counted_accepted n1 = [] \<and> counted_rejected n1 = [p])"
    by blast
  from Cons.IH [OF rest] obtain n2 where n2: "calls' = calls1 @ n2"
    "\<forall>c\<in>set n2. proposal_of c \<in> set ps"
    "a' = a1 + length (counted_accepted n2)" "r' = r1 + length (counted_rejected n2)"
    "added n2 = counted_accepted n2" "stored n2 = counted_accepted n2"
    "mset (counted_accepted n2) + mset (counted_rejected n2) = mset ps"
    by blast
  from n1(3) show ?case
  proof
    assume acc: "a1 = a + 1 \<and> r1 = r \<and> added n1 = [p] \<and> stored n1 = [p] \<and>
         counted_accepted n1 = [p] \<and> counted_rejected n1 = []"
    with n1(1,2) n2 show ?thesis
      by (intro exI [of _ "n1 @ n2"]) auto
  next
    assume rej: "a1 = a \<and> r1 = r + 1 \<and> added n1 = [] \<and> stored n1 = [] \<and>
         counted_accepted n1 = [] \<and> counted_rejected n1 = [p]"
    with n1(1,2) n2 show ?thesis
      by (intro exI [of _ "n1 @ n2"]) auto
  qed
qed

lemma accept_loop_Inl:
  "accept_loop S ps (a, r, calls, w) = Inl (e, calls', w') \<Longrightarrow>
     \<exists>new. calls' = calls @ new \<and> (\<forall>c\<in>set new. proposal_of c \<in> set ps)"
proof (induction ps arbitrary: a r calls w)
  case Nil
  then show ?case by simp
next
  case (Cons p ps)
  show ?case
  proof (cases "accept_one S p (a, r, calls, w)")
    case (Inl failure)
    with Cons.prems have "accept_one S p (a, r, calls, w) = Inl (e, calls', w')" by simp
    from accept_one_Inl [OF this] show ?thesis by auto
  next
    case (Inr st)
    obtain a1 r1 calls1 w1 where st: "st = (a1, r1, calls1, w1)" by (cases st)
    from accept_one_Inr [OF Inr [unfolded st]] obtain n1 where n1: "calls1 = calls @ n1"
      "\<forall>c\<in>set n1. proposal_of c = p" by blast
    from Cons.prems Inr st have "accept_loop S ps (a1, r1, calls1, w1) = Inl (e, calls', w')" by simp
    from Cons.IH [OF this] obtain n2 where "calls' = calls1 @ n2"
      "\<forall>c\<in>set n2. proposal_of c \<in> set ps" by blast
    with n1 show ?thesis by (intro exI [of _ "n1 @ n2"]) auto
  qed
qed

lemma split_nonempty: "split sep s \<noteq> []"
  by (induction s) (auto split: list.splits)

lemma split_single: "split sep s = [x] \<longleftrightarrow> x = s \<and> sep \<notin> set s"
proof (induction s arbitrary: x)
  case Nil
  show ?case by auto
next
  case (Cons c cs)
  show ?case
  proof (cases "c = sep")
    case True
    then show ?thesis using split_nonempty [of sep cs] by auto
  next
    case False
    obtain q qs where q: "split sep cs = q # qs"
      using split_nonempty [of sep cs] by (cases "split sep cs") auto
    have "split sep (c # cs) = [x] \<longleftrightarrow> (\<exists>y. x = c # y \<and> split sep cs = [y])"
      using False q by auto
    also have "\<dots> \<longleftrightarrow> (\<exists>y. x = c # y \<and> y = cs \<and> sep \<notin> set cs)"
      by (simp only: Cons.IH)
    also have "\<dots> \<longleftrightarrow> x = c # cs \<and> sep \<notin> set (c # cs)"
      using False by auto
    finally show ?thesis .
  qed
qed

lemma split_two:
  "split sep s = [p, c] \<longleftrightarrow> s = p @ sep # c \<and> sep \<notin> set p \<and> sep \<notin> set c"
proof (induction s arbitrary: p)
  case Nil
  show ?case by auto
next
  case (Cons x xs)
  show ?case
  proof (cases "x = sep")
    case True
    have "split sep (x # xs) = [p, c] \<longleftrightarrow> p = [] \<and> split sep xs = [c]"
      using True by auto
    also have "\<dots> \<longleftrightarrow> p = [] \<and> c = xs \<and> sep \<notin> set xs"
      by (simp only: split_single)
    also have "\<dots> \<longleftrightarrow> x # xs = p @ sep # c \<and> sep \<notin> set p \<and> sep \<notin> set c"
      using True by (cases p) auto
    finally show ?thesis .
  next
    case False
    obtain q qs where q: "split sep xs = q # qs"
      using split_nonempty [of sep xs] by (cases "split sep xs") auto
    have "split sep (x # xs) = [p, c] \<longleftrightarrow> (\<exists>y. p = x # y \<and> split sep xs = [y, c])"
      using False q by auto
    also have "\<dots> \<longleftrightarrow> (\<exists>y. p = x # y \<and> xs = y @ sep # c \<and> sep \<notin> set y \<and> sep \<notin> set c)"
      by (simp only: Cons.IH)
    also have "\<dots> \<longleftrightarrow> x # xs = p @ sep # c \<and> sep \<notin> set p \<and> sep \<notin> set c"
      using False by (cases p) auto
    finally show ?thesis .
  qed
qed

lemma toLowerCase_append [simp]: "toLowerCase (a @ b) = toLowerCase a @ toLowerCase b"
  by (simp add: toLowerCase_def)

lemma toLowerCase_length [simp]: "length (toLowerCase s) = length s"
  by (simp add: toLowerCase_def)

lemma isValidConceptId_structure:
  assumes "isValidConceptId i"
  shows "\<exists>parent child. i = parent @ ''/'' @ child \<and> parent \<in> set validParents \<and>
           CHR ''/'' \<notin> set parent \<and> CHR ''/'' \<notin> set child \<and> CHR '' '' \<notin> set child \<and>
           toLowerCase child = child \<and> length (split CHR ''-'' child) \<le> 4 \<and>
           length child \<le> 30 \<and> child \<noteq> ''concept'' \<and> child \<noteq> ''new''"
proof -
  from assms have len: "length (split CHR ''/'' i) = 2"
    unfolding isValidConceptId_def by (simp split: if_splits)
  then obtain parent child where sp: "split CHR ''/'' i = [parent, child]"
    by (auto simp: length_Suc_conv numeral_2_eq_2)
  from sp [unfolded split_two] have i: "i = parent @ CHR ''/'' # child"
    and np: "CHR ''/'' \<notin> set parent" and nc: "CHR ''/'' \<notin> set child"
    by blast+
  from assms have conds: "parent \<in> set validParents" "\<not> includes' child '' ''"
    "\<not> length child > 30" "\<not> (child = ''concept'' \<or> child = ''new'')" "i = toLowerCase i"
    "\<not> length (split CHR ''-'' child) > 4"
    unfolding isValidConceptId_def sp Let_def by (simp_all split: if_splits)
  from conds(5) have "parent @ CHR ''/'' # child = toLowerCase parent @ toLowerCase (CHR ''/'' # child)"
    unfolding i by simp
  then have "CHR ''/'' # child = toLowerCase (CHR ''/'' # child)"
    by (simp add: append_eq_append_conv)
  then have low: "toLowerCase child = child" by (simp add: toLowerCase_def)
  from conds(2) have nsp: "CHR '' '' \<notin> set child" by (simp add: includes'_single)
  note par = conds(1)
  from i np nc nsp low par conds(3,4,6) show ?thesis
    by (intro exI [of _ parent] exI [of _ child]) simp
qed

lemma validateProposedConcepts_valid:
  "p \<in> set (validateProposedConcepts raw) \<Longrightarrow>
     isValidConceptId (id' p) \<and> (\<exists>cs. raw = Some cs \<and> p \<in> set cs)"
  by (cases raw) (auto simp: validateProposedConcepts_def split: if_splits)

lemma autoAcceptProposals_calls:
  assumes "autoAcceptProposals S ps w = (res, calls, w')"
  shows "\<forall>c\<in>set calls. proposal_of c \<in> set ps"
proof (cases "ps = []")
  case True
  with assms show ?thesis by (simp add: autoAcceptProposals_def)
next
  case False
  show ?thesis
  proof (cases "accept_loop S ps (0, 0, [], w)")
    case (Inl failure)
    obtain e calls1 w1 where f: "failure = (e, calls1, w1)" by (cases failure)
    from accept_loop_Inl [OF Inl [unfolded f]] have "\<forall>c\<in>set calls1. proposal_of c \<in> set ps" by simp
    moreover from assms False Inl f have "calls = calls1" by (simp add: autoAcceptProposals_def)
    ultimately show ?thesis by simp
  next
    case (Inr st)
    obtain a r calls1 w1 where st: "st = (a, r, calls1, w1)" by (cases st)
    from accept_loop_Inr [OF Inr [unfolded st]] have "\<forall>c\<in>set calls1. proposal_of c \<in> set ps" by auto
    moreover from assms False Inr st have "calls = calls1" by (simp add: autoAcceptProposals_def)
    ultimately show ?thesis by simp
  qed
qed

lemma enrich_autoAccept_calls:
  assumes "enrich_autoAccept S r w = (counts, calls, w')"
  shows "\<forall>c\<in>set calls. \<exists>raw. r = LLMReturned raw \<and> proposal_of c \<in> set (validateProposedConcepts raw)"
proof (cases r)
  case LLMFailed
  with assms show ?thesis by (simp add: enrich_autoAccept_def result_proposedConcepts_def)
next
  case (LLMReturned raw)
  let ?ps = "validateProposedConcepts raw"
  show ?thesis
  proof (cases "?ps = []")
    case True
    with assms LLMReturned show ?thesis
      by (simp add: enrich_autoAccept_def result_proposedConcepts_def)
  next
    case False
    obtain res calls1 w1 where run: "autoAcceptProposals S ?ps w = (res, calls1, w1)"
      by (cases "autoAcceptProposals S ?ps w") auto
    from assms LLMReturned False run have "calls = calls1"
      by (cases res) (simp_all add: enrich_autoAccept_def result_proposedConcepts_def)
    with autoAcceptProposals_calls [OF run] LLMReturned show ?thesis by simp
  qed
qed

text \<open>
  C9: an id that \<^verbatim>\<open>isValidConceptId\<close> accepts has the form \<open>parent/child\<close> with the parent
  among the eight categories and the child in lower case, of at most 4 parts between
  hyphens and at most 30 characters, and neither \<open>concept\<close> nor \<open>new\<close>; what
  \<^verbatim>\<open>validateProposedConcepts\<close> keeps are proposals of the input with such an id; and every
  call that the auto-accept step of \<^verbatim>\<open>enrich\<close> makes (embedding, retrieval, judge, store)
  is for a proposal that the model returned and whose id is valid.
\<close>

theorem invalid_proposals_filtered_out:
  "(isValidConceptId i \<longrightarrow>
      (\<exists>parent child. i = parent @ ''/'' @ child \<and> parent \<in> set validParents \<and>
          CHR ''/'' \<notin> set parent \<and> CHR ''/'' \<notin> set child \<and> CHR '' '' \<notin> set child \<and>
          toLowerCase child = child \<and> length (split CHR ''-'' child) \<le> 4 \<and>
          length child \<le> 30 \<and> child \<noteq> ''concept'' \<and> child \<noteq> ''new'')) \<and>
   (\<forall>p\<in>set (validateProposedConcepts raw).
      isValidConceptId (id' p) \<and> (\<exists>cs. raw = Some cs \<and> p \<in> set cs)) \<and>
   (enrich_autoAccept S r w = (counts, calls, w') \<longrightarrow>
      (\<forall>c\<in>set calls. isValidConceptId (id' (proposal_of c)) \<and>
          (\<exists>cs. r = LLMReturned (Some cs) \<and> proposal_of c \<in> set cs)))"
proof (intro conjI impI ballI)
  assume "isValidConceptId i"
  then show "\<exists>parent child. i = parent @ ''/'' @ child \<and> parent \<in> set validParents \<and>
          CHR ''/'' \<notin> set parent \<and> CHR ''/'' \<notin> set child \<and> CHR '' '' \<notin> set child \<and>
          toLowerCase child = child \<and> length (split CHR ''-'' child) \<le> 4 \<and>
          length child \<le> 30 \<and> child \<noteq> ''concept'' \<and> child \<noteq> ''new''"
    by (rule isValidConceptId_structure)
next
  fix p assume p: "p \<in> set (validateProposedConcepts raw)"
  from validateProposedConcepts_valid [OF p]
  show "isValidConceptId (id' p)" and "\<exists>cs. raw = Some cs \<and> p \<in> set cs" by simp_all
next
  fix c assume run: "enrich_autoAccept S r w = (counts, calls, w')" and c: "c \<in> set calls"
  from enrich_autoAccept_calls [OF run] c obtain raw' where
    r: "r = LLMReturned raw'" and p: "proposal_of c \<in> set (validateProposedConcepts raw')" by blast
  from validateProposedConcepts_valid [OF p] r
  show "isValidConceptId (id' (proposal_of c))"
    and "\<exists>cs. r = LLMReturned (Some cs) \<and> proposal_of c \<in> set cs" by auto
qed

lemma new_concept_invalid: "\<not> isValidConceptId (id' new_concept)"
  by code_simp

lemma validate_example:
  "validateProposedConcepts (Some [new_concept, machine_learning]) = [machine_learning]"
  by code_simp

lemma enrich_example:
  "enrich_autoAccept (demo_services (Rejected ''ECONNREFUSED''))
       (LLMReturned (Some [new_concept, machine_learning])) [] =
     (Some \<lparr>accepted = 1, rejected = 0\<rparr>,
      [Embedded machine_learning, Retrieved machine_learning,
       Added machine_learning, Stored machine_learning, CountedAccepted machine_learning],
      [machine_learning])"
  by code_simp

theorem invalid_proposals_filtered_out_witness:
  "\<not> isValidConceptId (id' new_concept) \<and>
   validateProposedConcepts (Some [new_concept, machine_learning]) = [machine_learning] \<and>
   enrich_autoAccept (demo_services (Rejected ''ECONNREFUSED''))
       (LLMReturned (Some [new_concept, machine_learning])) [] =
     (Some \<lparr>accepted = 1, rejected = 0\<rparr>,
      [Embedded machine_learning, Retrieved machine_learning,
       Added machine_learning, Stored machine_learning, CountedAccepted machine_learning],
      [machine_learning]) \<and>
   isValidConceptId (id' machine_learning) \<and>
   (\<exists>parent child. id' machine_learning = parent @ ''/'' @ child \<and> parent \<in> set validParents \<and>
      length child \<le> 30)"
proof -
  note inst = invalid_proposals_filtered_out
      [of "id' machine_learning" "Some [new_concept, machine_learning]"
          "demo_services (Rejected ''ECONNREFUSED'')"
          "LLMReturned (Some [new_concept, machine_learning])" "[]"
          "Some \<lparr>accepted = 1, rejected = 0\<rparr>"
          "[Embedded machine_learning, Retrieved machine_learning,
            Added machine_learning, Stored machine_learning, CountedAccepted machine_learning]"
          "[machine_learning]"]
  have "Embedded machine_learning \<in> set [Embedded machine_learning, Retrieved machine_learning,
            Added machine_learning, Stored machine_learning, CountedAccepted machine_learning]"
    by simp
  with inst enrich_example have "isValidConceptId (id' (proposal_of (Embedded machine_learning)))"
    by blast
  then have v: "isValidConceptId (id' machine_learning)" by simp
  with inst have "\<exists>parent child. id' machine_learning = parent @ ''/'' @ child \<and>
      parent \<in> set validParents \<and> length child \<le> 30"
    by blast
  with v new_concept_invalid validate_example enrich_example show ?thesis by blast
qed




end
